theory Spec2Isabelle
  imports Main "HOL-Library.Word" "HOL-Library.Sublist" "HOL-Library.Multiset"
    "HOL-Library.Char_ord" "HOL-Library.List_Lexorder"
begin

chapter \<open>The embedding\<close>

text \<open>
  The repository holds two generations of the same command. \<^verbatim>\<open>src/main.go\<close> is the
  self-contained one: a semaphore, a wait group and a results channel. The files of
  \<^verbatim>\<open>src/unnamed/part_000\<close> (a limiter, the environment helpers and a second
  \<^verbatim>\<open>main\<close>, which goes with \<^verbatim>\<open>src/type.go\<close>) add the token bucket and read the
  configuration through \<^verbatim>\<open>mustGetEnvInt\<close>. Where both define a function of the same
  name and the bodies differ, the definition taken from part_000 carries the suffix
  \<open>_p0\<close>.
\<close>

section \<open>Image bytes: format sniffing and data URIs\<close>

type_synonym byte = "8 word"

text \<open>
  \<^verbatim>\<open>base64.StdEncoding.EncodeToString\<close> of the Go standard library: the RFC 4648
  alphabet, three bytes to four characters, padded with \<open>=\<close>.
\<close>

definition b64_alphabet :: string where
  "b64_alphabet = ''ABCDEFGHIJKLMNOPQRSTUVWXYZabcdefghijklmnopqrstuvwxyz0123456789+/''"

definition b64_char :: "nat \<Rightarrow> char" where
  "b64_char n = b64_alphabet ! (n mod 64)"

fun base64_encode :: "byte list \<Rightarrow> string" where
  "base64_encode [] = []"
| "base64_encode [a] =
     (let n = unat a * 65536
      in [b64_char (n div 262144), b64_char (n div 4096), CHR ''='', CHR ''=''])"
| "base64_encode [a, b] =
     (let n = unat a * 65536 + unat b * 256
      in [b64_char (n div 262144), b64_char (n div 4096), b64_char (n div 64), CHR ''=''])"
| "base64_encode (a # b # c # rest) =
     (let n = unat a * 65536 + unat b * 256 + unat c
      in [b64_char (n div 262144), b64_char (n div 4096), b64_char (n div 64), b64_char n]
         @ base64_encode rest)"

text \<open>
  \<^verbatim>\<open>imgBytesToDataURI\<close> (main.go 336-344, part_000 543-551): the GIF magic number
  decides the media type. The index reads are guarded by the length test, as in the
  source.
\<close>

definition imgBytesToDataURI :: "byte list \<Rightarrow> string" where
  "imgBytesToDataURI imgBytes =
     (let base64Img = base64_encode imgBytes
      in if length imgBytes > 3 \<and> imgBytes ! 0 = 0x47 \<and> imgBytes ! 1 = 0x49 \<and> imgBytes ! 2 = 0x46
         then ''data:image/gif;base64,'' @ base64Img
         else ''data:image/png;base64,'' @ base64Img)"

text \<open>
  The file extension chosen in the save loop of \<^verbatim>\<open>processImage\<close> (main.go 248-251,
  part_000 455-458): the source repeats the test inline, and so does the model.
\<close>

definition fileExtension :: "byte list \<Rightarrow> string" where
  "fileExtension imgBytes =
     (if length imgBytes > 3 \<and> imgBytes ! 0 = 0x47 \<and> imgBytes ! 1 = 0x49 \<and> imgBytes ! 2 = 0x46
      then ''gif'' else ''png'')"

section \<open>Panics, blocking, and channels of empty structs\<close>

text \<open>
  A panic ends the whole process. The ones this program can raise: \<^verbatim>\<open>panic(err)\<close> in
  \<^verbatim>\<open>mustGetEnvInt\<close> with the \<^verbatim>\<open>*strconv.NumError\<close> of the offending text,
  \<^verbatim>\<open>make(chan T, n)\<close> with a negative \<open>n\<close>, an integer division by zero,
  \<^verbatim>\<open>time.NewTicker\<close> with a non-positive interval, and a wait group counter that
  goes negative, and a send on or a second close of a closed channel.
\<close>

datatype panic =
    PanicNumError string
  | PanicMakechan
  | PanicDivide
  | PanicTicker
  | PanicWaitGroup
  | PanicClosedChannel

datatype 'a outcome = Returns 'a | Panics panic | Blocks

text \<open>
  A \<^verbatim>\<open>chan struct{}\<close> carries no data: its state is its capacity and the number of
  elements buffered. A send blocks (\<open>None\<close>) when the buffer is full, a receive when it
  is empty.
\<close>

record unit_chan =
  ch_cap :: nat
  ch_len :: nat

definition make_chan :: "int \<Rightarrow> panic + unit_chan" where
  "make_chan n = (if n < 0 then Inl PanicMakechan else Inr \<lparr>ch_cap = nat n, ch_len = 0\<rparr>)"

definition ch_send :: "unit_chan \<Rightarrow> unit_chan option" where
  "ch_send c = (if ch_len c < ch_cap c then Some (c\<lparr>ch_len := ch_len c + 1\<rparr>) else None)"

definition ch_recv :: "unit_chan \<Rightarrow> unit_chan option" where
  "ch_recv c = (if 0 < ch_len c then Some (c\<lparr>ch_len := ch_len c - 1\<rparr>) else None)"

section \<open>The limiter (part_000 7-44)\<close>

text \<open>
  \<open>ticker\<close> is the period of the \<^verbatim>\<open>time.Ticker\<close> in nanoseconds: \<^verbatim>\<open>time.Minute\<close>
  is \<open>60 * 10^9\<close> and \<^verbatim>\<open>time.Duration\<close> division is integer division. The passing of
  real time is not modelled: a tick is an event that may happen at any moment.
\<close>

record Limiter =
  rate :: int
  tokens :: unit_chan
  ticker :: int

definition minute_ns :: int where
  "minute_ns = 60000000000"

definition NewTicker :: "int \<Rightarrow> panic + int" where
  "NewTicker d = (if d \<le> 0 then Inl PanicTicker else Inr d)"

text \<open>The loop \<^verbatim>\<open>for i := 0; i < ratePerMinute; i++ { l.tokens <- struct{}{} }\<close>.\<close>

function fillBucket :: "Limiter \<Rightarrow> int \<Rightarrow> int \<Rightarrow> Limiter option" where
  "fillBucket l ratePerMinute i =
     (if i < ratePerMinute
      then (case ch_send (tokens l) of
              None \<Rightarrow> None
            | Some c \<Rightarrow> fillBucket (l\<lparr>tokens := c\<rparr>) ratePerMinute (i + 1))
      else Some l)"
  by pat_completeness auto
termination
  by (relation "measure (\<lambda>(l, r, i). nat (r - i))") auto

declare fillBucket.simps [simp del]

text \<open>
  The fields of the composite literal are evaluated in order: \<^verbatim>\<open>make\<close> first, then the
  division and \<^verbatim>\<open>time.NewTicker\<close>.
\<close>

definition NewLimiter :: "int \<Rightarrow> Limiter outcome" where
  "NewLimiter ratePerMinute =
     (case make_chan ratePerMinute of
        Inl p \<Rightarrow> Panics p
      | Inr c \<Rightarrow>
          if ratePerMinute = 0 then Panics PanicDivide
          else (case NewTicker (minute_ns div ratePerMinute) of
                  Inl p \<Rightarrow> Panics p
                | Inr t \<Rightarrow>
                    (case fillBucket \<lparr>rate = ratePerMinute, tokens = c, ticker = t\<rparr> ratePerMinute 0 of
                       None \<Rightarrow> Blocks
                     | Some l \<Rightarrow> Returns l)))"

text \<open>One iteration of \<^verbatim>\<open>refillTokens\<close>: the \<^verbatim>\<open>select\<close> with a \<^verbatim>\<open>default\<close> never blocks.\<close>

definition refillTokens :: "Limiter \<Rightarrow> Limiter" where
  "refillTokens l = (case ch_send (tokens l) of Some c \<Rightarrow> l\<lparr>tokens := c\<rparr> | None \<Rightarrow> l)"

definition Wait :: "Limiter \<Rightarrow> Limiter option" where
  "Wait l = (case ch_recv (tokens l) of Some c \<Rightarrow> Some (l\<lparr>tokens := c\<rparr>) | None \<Rightarrow> None)"

text \<open>
  Any history of the limiter is a sequence of ticks and of \<^verbatim>\<open>Wait\<close> calls; a call
  that finds the reservoir empty stays blocked and changes nothing.
\<close>

datatype limiter_op = Tick | Acquire

fun limiter_run :: "limiter_op list \<Rightarrow> Limiter \<Rightarrow> Limiter" where
  "limiter_run [] l = l"
| "limiter_run (Tick # ops) l = limiter_run ops (refillTokens l)"
| "limiter_run (Acquire # ops) l =
     (case Wait l of Some l' \<Rightarrow> limiter_run ops l' | None \<Rightarrow> limiter_run ops l)"

section \<open>Environment variables (part_000 56-71, main.go 76-80)\<close>

text \<open>
  \<^verbatim>\<open>strconv.Atoi\<close> of the Go standard library: an optional sign, then one or more
  decimal digits, and a value that fits a 64-bit \<^verbatim>\<open>int\<close>; anything else is a
  \<^verbatim>\<open>*strconv.NumError\<close>. The environment is a map from names to values
  (\<^verbatim>\<open>os.LookupEnv\<close>).
\<close>

definition is_digit :: "char \<Rightarrow> bool" where
  "is_digit c \<longleftrightarrow> 48 \<le> (of_char c :: nat) \<and> (of_char c :: nat) \<le> 57"

definition digits_value :: "string \<Rightarrow> nat" where
  "digits_value ds = foldl (\<lambda>n c. 10 * n + (of_char c - 48)) 0 ds"

definition Atoi :: "string \<Rightarrow> panic + int" where
  "Atoi s =
     (let neg = (s \<noteq> [] \<and> hd s = CHR ''-'');
          ds = (if s \<noteq> [] \<and> (hd s = CHR ''-'' \<or> hd s = CHR ''+'') then tl s else s);
          v = (if neg then - int (digits_value ds) else int (digits_value ds))
      in if ds = [] \<or> \<not> list_all is_digit ds then Inl (PanicNumError s)
         else if v < - (2 ^ 63) \<or> 2 ^ 63 - 1 < v then Inl (PanicNumError s)
         else Inr v)"

text \<open>\<^verbatim>\<open>getEnvInt\<close> and \<^verbatim>\<open>mustGetEnvInt\<close> (part_000 56-71); the panic carries the error.\<close>

definition getEnvInt :: "(string \<rightharpoonup> string) \<Rightarrow> string \<Rightarrow> int \<Rightarrow> panic + int" where
  "getEnvInt environ key fallback =
     (case environ key of
        None \<Rightarrow> Inr fallback
      | Some v \<Rightarrow> if v = '''' then Inr fallback else Atoi v)"

definition mustGetEnvInt :: "(string \<rightharpoonup> string) \<Rightarrow> string \<Rightarrow> int \<Rightarrow> panic + int" where
  "mustGetEnvInt environ key fallback =
     (case getEnvInt environ key fallback of Inl err \<Rightarrow> Inl err | Inr v \<Rightarrow> Inr v)"

section \<open>Results\<close>

text \<open>
  A Go \<^verbatim>\<open>error\<close> is represented by the text its \<^verbatim>\<open>Error()\<close> method returns; \<^verbatim>\<open>nil\<close>
  is \<open>None\<close>. \<open>Response\<close> is the struct of \<^verbatim>\<open>main.go\<close> (25-40), \<open>Response_t\<close> the one
  of \<^verbatim>\<open>type.go\<close> (3-18), which goes with part_000. \<^verbatim>\<open>Result\<close> embeds the response:
  the embedded struct is the field \<open>Response\<close>.
\<close>

datatype error = Err (message: string)

record Response =
  TwitchEmoteName :: string
  Filename :: string
  Description :: string
  Category :: string
  NSFW :: bool
  MainColor :: string
  SecondaryColor :: string
  EmoteType :: string
  EmoteStyle :: string
  EmoteExpression :: string
  EmoteFormat :: string
  EmoteSize :: string
  EmoteQuality :: string
  EmoteSuitability28px :: string

record Response_t =
  TwitchEmoteName :: string
  Description :: string
  Category :: string
  NSFW :: bool
  ColorDescription :: string
  MainColor :: string
  SecondaryColor :: string
  EmoteType :: string
  EmoteStyle :: string
  EmoteExpression :: string
  EmoteFormat :: string
  EmoteSize :: string
  EmoteQuality :: string
  EmoteSuitability28px :: string

record 'r Result =
  Response :: 'r
  SourceFilepath :: string
  DestinationFiles :: "string list"
  Error :: "error option"
  ErrorString :: string

definition Response_zero :: Response where
  "Response_zero = \<lparr>Response.TwitchEmoteName = '''', Filename = '''', Response.Description = '''',
     Response.Category = '''', Response.NSFW = False, Response.MainColor = '''',
     Response.SecondaryColor = '''', Response.EmoteType = '''', Response.EmoteStyle = '''',
     Response.EmoteExpression = '''', Response.EmoteFormat = '''', Response.EmoteSize = '''',
     Response.EmoteQuality = '''', Response.EmoteSuitability28px = ''''\<rparr>"

definition Response_t_zero :: Response_t where
  "Response_t_zero = \<lparr>Response_t.TwitchEmoteName = '''', Response_t.Description = '''',
     Response_t.Category = '''', Response_t.NSFW = False, ColorDescription = '''',
     Response_t.MainColor = '''',
     Response_t.SecondaryColor = '''', Response_t.EmoteType = '''', Response_t.EmoteStyle = '''',
     Response_t.EmoteExpression = '''', Response_t.EmoteFormat = '''', Response_t.EmoteSize = '''',
     Response_t.EmoteQuality = '''', Response_t.EmoteSuitability28px = ''''\<rparr>"

text \<open>
  What \<^verbatim>\<open>json.MarshalIndent\<close> writes for a \<^verbatim>\<open>Result\<close>, as the list of its members.
  Every field is tagged \<^verbatim>\<open>omitempty\<close>: an empty string, \<^verbatim>\<open>false\<close> and an empty slice
  are left out. The field \<^verbatim>\<open>Error\<close> is tagged \<^verbatim>\<open>json:"-"\<close> and never written. The
  fields are strings, a boolean and a slice of strings, so marshalling cannot fail: the
  error branches after \<^verbatim>\<open>json.MarshalIndent\<close> are dead and are not branches of the
  model.
\<close>

datatype jvalue = JString string | JBool bool | JStrings "string list"

type_synonym json_object = "(string \<times> jvalue) list"

definition jstring :: "string \<Rightarrow> string \<Rightarrow> json_object" where
  "jstring key v = (if v = '''' then [] else [(key, JString v)])"

definition jbool :: "string \<Rightarrow> bool \<Rightarrow> json_object" where
  "jbool key v = (if v then [(key, JBool v)] else [])"

definition jstrings :: "string \<Rightarrow> string list \<Rightarrow> json_object" where
  "jstrings key v = (if v = [] then [] else [(key, JStrings v)])"

definition marshal_Response :: "Response \<Rightarrow> json_object" where
  "marshal_Response r =
     jstring ''twitchEmoteName'' (Response.TwitchEmoteName r) @
     jstring ''filename'' (Filename r) @
     jstring ''description'' (Response.Description r) @
     jstring ''category'' (Response.Category r) @
     jbool ''nsfw'' (Response.NSFW r) @
     jstring ''mainColor'' (Response.MainColor r) @
     jstring ''secondaryColor'' (Response.SecondaryColor r) @
     jstring ''emoteType'' (Response.EmoteType r) @
     jstring ''emoteStyle'' (Response.EmoteStyle r) @
     jstring ''emoteExpression'' (Response.EmoteExpression r) @
     jstring ''emoteFormat'' (Response.EmoteFormat r) @
     jstring ''emoteSize'' (Response.EmoteSize r) @
     jstring ''emoteQuality'' (Response.EmoteQuality r) @
     jstring ''emoteSuitability28px'' (Response.EmoteSuitability28px r)"

definition marshal_Response_t :: "Response_t \<Rightarrow> json_object" where
  "marshal_Response_t r =
     jstring ''twitchEmoteName'' (Response_t.TwitchEmoteName r) @
     jstring ''description'' (Response_t.Description r) @
     jstring ''category'' (Response_t.Category r) @
     jbool ''nsfw'' (Response_t.NSFW r) @
     jstring ''colorDescription'' (ColorDescription r) @
     jstring ''mainColor'' (Response_t.MainColor r) @
     jstring ''secondaryColor'' (Response_t.SecondaryColor r) @
     jstring ''emoteType'' (Response_t.EmoteType r) @
     jstring ''emoteStyle'' (Response_t.EmoteStyle r) @
     jstring ''emoteExpression'' (Response_t.EmoteExpression r) @
     jstring ''emoteFormat'' (Response_t.EmoteFormat r) @
     jstring ''emoteSize'' (Response_t.EmoteSize r) @
     jstring ''emoteQuality'' (Response_t.EmoteQuality r) @
     jstring ''emoteSuitability28px'' (Response_t.EmoteSuitability28px r)"

definition marshal_Result :: "('r \<Rightarrow> json_object) \<Rightarrow> 'r Result \<Rightarrow> json_object" where
  "marshal_Result marshal_embedded result =
     marshal_embedded (Response result) @
     jstring ''source'' (SourceFilepath result) @
     jstrings ''destination'' (DestinationFiles result) @
     jstring ''error'' (ErrorString result)"

section \<open>External collaborators\<close>

text \<open>
  The operating system, the image codecs, the resizing (floating point and the
  \<^verbatim>\<open>draw\<close> package) and the chat completion API are parameters: a record of
  functions, one for each call the program makes. Images are opaque (\<open>'img\<close> for
  \<^verbatim>\<open>image.Image\<close>, \<open>'gif\<close> for \<^verbatim>\<open>*gif.GIF\<close>). A library call that returns a value and
  an error returns one or the other. \<open>gif_Image0\<close> is \<^verbatim>\<open>gifImg.Image[0]\<close>: a
  successfully decoded GIF has a frame. \<open>map_range\<close> is the order in which
  \<^verbatim>\<open>range\<close> visits a map, which Go leaves unspecified.

  \<^verbatim>\<open>jsonschema.VerifySchemaAndUnmarshal\<close> is handed the pointer \<^verbatim>\<open>result\<close>, a
  \<^verbatim>\<open>*Result\<close>, and decodes the tool call's arguments into it. It can assign every
  field that has a JSON name: the fields of the embedded response and, by their tags,
  \<^verbatim>\<open>source\<close>, \<^verbatim>\<open>destination\<close> and \<^verbatim>\<open>error\<close>; it cannot assign \<^verbatim>\<open>Error\<close>
  (\<^verbatim>\<open>json:"-"\<close>). \<open>decoded\<close> is what one call does: the error it returns, the
  embedded response afterwards, and the value assigned to each of the three tagged
  fields, if any.
\<close>

type_synonym file_contents = "byte list"

datatype color_model = ColorModelOf nat

record image_Config =
  ColorModel :: "color_model option"
  Width :: int
  Height :: int

datatype file_data = FileBytes "byte list" | FileJson json_object

record 'r decoded =
  dec_err :: "error option"
  dec_Response :: 'r
  dec_source :: "string option"
  dec_destination :: "string list option"
  dec_error :: "string option"

record ('img, 'gif, 'r) env =
  os_Open :: "string \<Rightarrow> error + file_contents"
  image_DecodeConfig :: "file_contents \<Rightarrow> error + (image_Config \<times> string)"
  gif_DecodeAll :: "file_contents \<Rightarrow> error + 'gif"
  gif_Image0 :: "'gif \<Rightarrow> 'img"
  image_Decode :: "file_contents \<Rightarrow> string \<times> (error + 'img)"
  img_Bounds :: "'img \<Rightarrow> int \<times> int"
  png_Encode :: "'img \<Rightarrow> error + byte list"
  gif_EncodeAll :: "'gif \<Rightarrow> error + byte list"
  resizeToSquare :: "'img \<Rightarrow> nat \<Rightarrow> 'img"
  resizeGIFToSquare :: "'gif \<Rightarrow> nat \<Rightarrow> 'gif"
  CreateChatCompletion :: "string \<Rightarrow> string list \<Rightarrow> error + string list list"
  VerifySchemaAndUnmarshal :: "string \<Rightarrow> 'r \<Rightarrow> 'r decoded"
  os_Create :: "string \<Rightarrow> error option"
  file_Write :: "string \<Rightarrow> file_data \<Rightarrow> error option"
  map_range :: "(string \<times> byte list) list \<Rightarrow> (string \<times> byte list) list"

text \<open>The package-level variables the processing reads.\<close>

record vars =
  promptText :: string
  emoteNamePrefix :: string
  imageCategories :: "string list"
  resizeTargets :: "int list"

definition emoteNamePrefixPlaceholder :: string where
  "emoteNamePrefixPlaceholder = ''strim99''"

section \<open>getImage (main.go 273-316, part_000 480-523)\<close>

definition getImage :: "('img, 'gif, 'r) env \<Rightarrow> string \<Rightarrow> error + ('img \<times> 'gif option)" where
  "getImage E filename =
     (case os_Open E filename of
        Inl err \<Rightarrow> Inl err
      | Inr f \<Rightarrow>
          (case image_DecodeConfig E f of
             Inl err \<Rightarrow> Inl err
           | Inr (imageConfig, modelConfig) \<Rightarrow>
               if ColorModel imageConfig = None
               then Inl (Err ''image.DecodeConfig returned a nil ColorModel'')
               else if Height imageConfig = 0 \<or> Width imageConfig = 0
               then Inl (Err ''image.DecodeConfig returned a zero Height or Width'')
               else if Width imageConfig > 4096 \<or> Height imageConfig > 4096
               then Inl (Err ''image.DecodeConfig returned a Width or Height greater than hardcoded maximum size of 4096'')
               else (case gif_DecodeAll E f of
                       Inr gifImg \<Rightarrow> Inr (gif_Image0 E gifImg, Some gifImg)
                     | Inl _ \<Rightarrow>
                         (case image_Decode E f of
                            (modelDecode, dec) \<Rightarrow>
                              if modelConfig \<noteq> modelDecode
                              then Inl (Err ''image.DecodeConfig and image.Decode return different models'')
                              else (case dec of
                                      Inl err \<Rightarrow> Inl err
                                    | Inr img \<Rightarrow> Inr (img, None))))))"

definition imageToPNG :: "('img, 'gif, 'r) env \<Rightarrow> 'img \<Rightarrow> error + byte list" where
  "imageToPNG E img = (case png_Encode E img of Inl err \<Rightarrow> Inl err | Inr buf \<Rightarrow> Inr buf)"

definition encodeGIF :: "('img, 'gif, 'r) env \<Rightarrow> 'gif \<Rightarrow> error + byte list" where
  "encodeGIF E g = (case gif_EncodeAll E g of Inl err \<Rightarrow> Inl err | Inr buf \<Rightarrow> Inr buf)"

definition saveBytesToDisk :: "('img, 'gif, 'r) env \<Rightarrow> byte list \<Rightarrow> string \<Rightarrow> error option" where
  "saveBytesToDisk E data filename =
     (case os_Create E filename of
        Some err \<Rightarrow> Some err
      | None \<Rightarrow> file_Write E filename (FileBytes data))"

definition saveResultToDisk ::
  "('img, 'gif, 'r) env \<Rightarrow> ('r \<Rightarrow> json_object) \<Rightarrow> 'r Result \<Rightarrow> string \<Rightarrow> error option" where
  "saveResultToDisk E marshal_embedded result filename =
     (case os_Create E filename of
        Some err \<Rightarrow> Some err
      | None \<Rightarrow> file_Write E filename (FileJson (marshal_Result marshal_embedded result)))"

section \<open>processImage\<close>

text \<open>
  \<^verbatim>\<open>processImage\<close> is instrumented with a log of the stages it goes through, each with
  the error it ended with, if any.
\<close>

datatype stage =
    StGetImage
  | StEncodeGIF
  | StEncodePNG
  | StResizeGIF nat
  | StResize nat
  | StChatCompletion
  | StChoices
  | StToolCalls
  | StUnmarshal
  | StSaveBytes string "byte list"
  | StSaveResult string

datatype effect = Fx stage "error option"

text \<open>\<^verbatim>\<open>strings.Replace(s, old, new, 1)\<close>.\<close>

fun replace_first :: "string \<Rightarrow> string \<Rightarrow> string \<Rightarrow> string" where
  "replace_first old new [] = (if old = [] then new else [])"
| "replace_first old new (c # cs) =
     (if prefix old (c # cs) then new @ drop (length old) (c # cs)
      else c # replace_first old new cs)"

definition strings_Replace1 :: "string \<Rightarrow> string \<Rightarrow> string \<Rightarrow> string" where
  "strings_Replace1 s old new = (if old = new then s else replace_first old new s)"

definition unmarshal_into :: "'r decoded \<Rightarrow> 'r Result \<Rightarrow> 'r Result" where
  "unmarshal_into d result =
     result\<lparr>Response := dec_Response d,
            SourceFilepath := (case dec_source d of None \<Rightarrow> SourceFilepath result | Some v \<Rightarrow> v),
            DestinationFiles := (case dec_destination d of None \<Rightarrow> DestinationFiles result | Some v \<Rightarrow> v),
            ErrorString := (case dec_error d of None \<Rightarrow> ErrorString result | Some v \<Rightarrow> v)\<rparr>"

text \<open>main.go 144-181: the original and the 28x28 version, as GIF or as PNG.\<close>

definition convertImages ::
  "('img, 'gif, 'r) env \<Rightarrow> 'img \<Rightarrow> 'gif option
     \<Rightarrow> effect list \<times> (error + ((string \<times> byte list) list \<times> string list))" where
  "convertImages E img gifImg =
     (case gifImg of
        Some g \<Rightarrow>
          (case encodeGIF E g of
             Inl err \<Rightarrow> ([Fx StEncodeGIF (Some err)], Inl err)
           | Inr gifBytes \<Rightarrow>
               (let img28 = resizeGIFToSquare E g 28 in
                case encodeGIF E img28 of
                  Inl err \<Rightarrow>
                    ([Fx StEncodeGIF None, Fx (StResizeGIF 28) None, Fx StEncodeGIF (Some err)], Inl err)
                | Inr gifBytes28 \<Rightarrow>
                    ([Fx StEncodeGIF None, Fx (StResizeGIF 28) None, Fx StEncodeGIF None],
                     Inr ([(''original'', gifBytes), (''28x28'', gifBytes28)],
                          [imgBytesToDataURI gifBytes, imgBytesToDataURI gifBytes28]))))
      | None \<Rightarrow>
          (case imageToPNG E img of
             Inl err \<Rightarrow> ([Fx StEncodePNG (Some err)], Inl err)
           | Inr pngBytes \<Rightarrow>
               (let img28 = resizeToSquare E img 28 in
                case imageToPNG E img28 of
                  Inl err \<Rightarrow>
                    ([Fx StEncodePNG None, Fx (StResize 28) None, Fx StEncodePNG (Some err)], Inl err)
                | Inr pngBytes28 \<Rightarrow>
                    ([Fx StEncodePNG None, Fx (StResize 28) None, Fx StEncodePNG None],
                     Inr ([(''original'', pngBytes), (''28x28'', pngBytes28)],
                          [imgBytesToDataURI pngBytes, imgBytesToDataURI pngBytes28])))))"

text \<open>
  main.go 183-234: the request and the checks on the response. A response is the list of
  its choices, a choice the list of the arguments of its tool calls.
\<close>

definition requestArguments ::
  "('img, 'gif, 'r) env \<Rightarrow> string \<Rightarrow> string list \<Rightarrow> effect list \<times> (error + string)" where
  "requestArguments E text dataURIs =
     (case CreateChatCompletion E text dataURIs of
        Inl err \<Rightarrow> ([Fx StChatCompletion (Some err)], Inl err)
      | Inr resp \<Rightarrow>
          if length resp = 0
          then ([Fx StChatCompletion None, Fx StChoices (Some (Err ''no response received''))],
                Inl (Err ''no response received''))
          else if length (resp ! 0) = 0
          then ([Fx StChatCompletion None, Fx StChoices None,
                 Fx StToolCalls (Some (Err ''no tool calls found''))],
                Inl (Err ''no tool calls found''))
          else ([Fx StChatCompletion None, Fx StChoices None, Fx StToolCalls None],
                Inr (resp ! 0 ! 0)))"

text \<open>
  The save loop (main.go 246-264, part_000 451-471); the boolean is false when the loop
  returned early.
\<close>

fun saveImages ::
  "('img, 'gif, 'r) env \<Rightarrow> ('r \<Rightarrow> string) \<Rightarrow> 'r Result \<Rightarrow> (string \<times> byte list) list
     \<Rightarrow> effect list \<times> 'r Result \<times> bool" where
  "saveImages E name result [] = ([], result, True)"
| "saveImages E name result ((key, imgBytes) # rest) =
     (let filename = name (Response result) @ ''.'' @ key @ ''.'' @ fileExtension imgBytes in
      case saveBytesToDisk E imgBytes filename of
        Some err \<Rightarrow> ([Fx (StSaveBytes filename imgBytes) (Some err)], result\<lparr>Error := Some err\<rparr>, False)
      | None \<Rightarrow>
          (case saveImages E name (result\<lparr>DestinationFiles := DestinationFiles result @ [filename]\<rparr>) rest of
             (fx, result', ok) \<Rightarrow> (Fx (StSaveBytes filename imgBytes) None # fx, result', ok)))"

text \<open>
  main.go 236-270. An error of the decoder is stored and the function goes on: there is
  no \<^verbatim>\<open>return\<close> in that branch.
\<close>

definition storeResult ::
  "('img, 'gif, Response) env \<Rightarrow> vars \<Rightarrow> Response Result \<Rightarrow> string \<Rightarrow> (string \<times> byte list) list
     \<Rightarrow> effect list \<times> Response Result" where
  "storeResult E V result0 arguments imagesBytes =
     (let d = VerifySchemaAndUnmarshal E arguments (Response result0);
          result1 = unmarshal_into d result0;
          result2 = (case dec_err d of Some err \<Rightarrow> result1\<lparr>Error := Some err\<rparr> | None \<Rightarrow> result1);
          result3 = result2\<lparr>Response := (Response result2)
                      \<lparr>Response.TwitchEmoteName :=
                         strings_Replace1 (Response.TwitchEmoteName (Response result2))
                           emoteNamePrefixPlaceholder (emoteNamePrefix V),
                       Filename :=
                         strings_Replace1 (Filename (Response result2))
                           emoteNamePrefixPlaceholder (emoteNamePrefix V)\<rparr>\<rparr>
      in case saveImages E Filename result3 (map_range E imagesBytes) of
           (fx, result4, ok) \<Rightarrow>
             if \<not> ok then (Fx StUnmarshal (dec_err d) # fx, result4)
             else (let filename = Filename (Response result4) @ ''.json'' in
                   case saveResultToDisk E marshal_Response result4 filename of
                     Some err \<Rightarrow>
                       (Fx StUnmarshal (dec_err d) # fx @ [Fx (StSaveResult filename) (Some err)],
                        result4\<lparr>Error := Some err\<rparr>)
                   | None \<Rightarrow>
                       (Fx StUnmarshal (dec_err d) # fx @ [Fx (StSaveResult filename) None], result4)))"

text \<open>
  \<open>processImage_result\<close> is the value of \<^verbatim>\<open>*result\<close> when \<^verbatim>\<open>processImage\<close> returns,
  with the log. The deferred function sends it on every return path:
  \<open>processImage\<close> appends it to the contents of the channel.
\<close>

definition processImage_result ::
  "('img, 'gif, Response) env \<Rightarrow> vars \<Rightarrow> string \<Rightarrow> effect list \<times> Response Result" where
  "processImage_result E V path =
     (let result = \<lparr>Response = Response_zero, SourceFilepath = path, DestinationFiles = [],
                    Error = None, ErrorString = ''''\<rparr> in
      case getImage E path of
        Inl err \<Rightarrow> ([Fx StGetImage (Some err)], result\<lparr>Error := Some err\<rparr>)
      | Inr (img, gifImg) \<Rightarrow>
          (case convertImages E img gifImg of
             (fx1, Inl err) \<Rightarrow> (Fx StGetImage None # fx1, result\<lparr>Error := Some err\<rparr>)
           | (fx1, Inr (imagesBytes, dataURIs)) \<Rightarrow>
               (case requestArguments E (promptText V) dataURIs of
                  (fx2, Inl err) \<Rightarrow> (Fx StGetImage None # fx1 @ fx2, result\<lparr>Error := Some err\<rparr>)
                | (fx2, Inr arguments) \<Rightarrow>
                    (case storeResult E V result arguments imagesBytes of
                       (fx3, result') \<Rightarrow> (Fx StGetImage None # fx1 @ fx2 @ fx3, result')))))"

definition processImage ::
  "('img, 'gif, Response) env \<Rightarrow> vars \<Rightarrow> string \<Rightarrow> Response Result list
     \<Rightarrow> effect list \<times> Response Result list" where
  "processImage E V path results =
     (case processImage_result E V path of (fx, result) \<Rightarrow> (fx, results @ [result]))"

section \<open>processImage of part_000 (306-478)\<close>

text \<open>\<^verbatim>\<open>fmt.Sprintf("%dx%d", w, h)\<close>, \<^verbatim>\<open>uint(size)\<close> and \<^verbatim>\<open>strings.Join\<close>.\<close>

fun dec_nat :: "nat \<Rightarrow> string" where
  "dec_nat n = (if n < 10 then [char_of (48 + n)] else dec_nat (n div 10) @ [char_of (48 + n mod 10)])"

declare dec_nat.simps [simp del]

definition format_int :: "int \<Rightarrow> string" where
  "format_int i = (if i < 0 then ''-'' @ dec_nat (nat (- i)) else dec_nat (nat i))"

definition size_key :: "int \<Rightarrow> int \<Rightarrow> string" where
  "size_key w h = format_int w @ ''x'' @ format_int h"

definition uint_of :: "int \<Rightarrow> nat" where
  "uint_of i = nat (i mod 2 ^ 64)"

fun strings_Join :: "string list \<Rightarrow> string \<Rightarrow> string" where
  "strings_Join [] sep = []"
| "strings_Join [x] sep = x"
| "strings_Join (x # y # ys) sep = x @ sep @ strings_Join (y # ys) sep"

text \<open>
  \<^verbatim>\<open>imagesBytes\<close> is a \<^verbatim>\<open>map[string][]byte\<close>: an association list with one entry for
  each key. Reading a missing key gives the nil slice.
\<close>

fun map_store :: "string \<Rightarrow> byte list \<Rightarrow> (string \<times> byte list) list \<Rightarrow> (string \<times> byte list) list" where
  "map_store k v [] = [(k, v)]"
| "map_store k v ((k', v') # m) = (if k = k' then (k, v) # m else (k', v') # map_store k v m)"

definition map_load :: "(string \<times> byte list) list \<Rightarrow> string \<Rightarrow> byte list" where
  "map_load m k = (case map_of m k of Some v \<Rightarrow> v | None \<Rightarrow> [])"

text \<open>The loops over \<^verbatim>\<open>resizeTargets\<close> (part_000 338-352 and 364-378).\<close>

fun resizeGIFs ::
  "('img, 'gif, 'r) env \<Rightarrow> 'gif \<Rightarrow> string \<Rightarrow> int list \<Rightarrow> (string \<times> byte list) list
     \<Rightarrow> effect list \<times> (error + (string \<times> byte list) list)" where
  "resizeGIFs E gifImg originalSize [] imagesBytes = ([], Inr imagesBytes)"
| "resizeGIFs E gifImg originalSize (sz # rest) imagesBytes =
     (let newSize = size_key sz sz in
      if newSize = originalSize then resizeGIFs E gifImg originalSize rest imagesBytes
      else (let imgResized = resizeGIFToSquare E gifImg (uint_of sz) in
            case encodeGIF E imgResized of
              Inl err \<Rightarrow> ([Fx (StResizeGIF (uint_of sz)) None, Fx StEncodeGIF (Some err)], Inl err)
            | Inr gifBytes \<Rightarrow>
                (case resizeGIFs E gifImg originalSize rest (map_store newSize gifBytes imagesBytes) of
                   (fx, r) \<Rightarrow> (Fx (StResizeGIF (uint_of sz)) None # Fx StEncodeGIF None # fx, r))))"

fun resizePNGs ::
  "('img, 'gif, 'r) env \<Rightarrow> 'img \<Rightarrow> string \<Rightarrow> int list \<Rightarrow> (string \<times> byte list) list
     \<Rightarrow> effect list \<times> (error + (string \<times> byte list) list)" where
  "resizePNGs E img originalSize [] imagesBytes = ([], Inr imagesBytes)"
| "resizePNGs E img originalSize (sz # rest) imagesBytes =
     (let newSize = size_key sz sz in
      if newSize = originalSize then resizePNGs E img originalSize rest imagesBytes
      else (let imgResized = resizeToSquare E img (uint_of sz) in
            case imageToPNG E imgResized of
              Inl err \<Rightarrow> ([Fx (StResize (uint_of sz)) None, Fx StEncodePNG (Some err)], Inl err)
            | Inr pngBytes \<Rightarrow>
                (case resizePNGs E img originalSize rest (map_store newSize pngBytes imagesBytes) of
                   (fx, r) \<Rightarrow> (Fx (StResize (uint_of sz)) None # Fx StEncodePNG None # fx, r))))"

definition convertImages_p0 ::
  "('img, 'gif, 'r) env \<Rightarrow> vars \<Rightarrow> 'img \<Rightarrow> 'gif option
     \<Rightarrow> effect list \<times> (error + ((string \<times> byte list) list \<times> string list))" where
  "convertImages_p0 E V img gifImg =
     (let originalSize = size_key (fst (img_Bounds E img)) (snd (img_Bounds E img)) in
      case gifImg of
        Some g \<Rightarrow>
          (case encodeGIF E g of
             Inl err \<Rightarrow> ([Fx StEncodeGIF (Some err)], Inl err)
           | Inr gifBytes \<Rightarrow>
               (let imagesBytes = map_store originalSize gifBytes [];
                    dataURIs = [imgBytesToDataURI (map_load imagesBytes originalSize)] in
                case resizeGIFs E g originalSize (resizeTargets V) imagesBytes of
                  (fx, Inl err) \<Rightarrow> (Fx StEncodeGIF None # fx, Inl err)
                | (fx, Inr imagesBytes') \<Rightarrow>
                    (Fx StEncodeGIF None # fx,
                     Inr (imagesBytes', dataURIs @ [imgBytesToDataURI (map_load imagesBytes' ''28x28'')]))))
      | None \<Rightarrow>
          (case imageToPNG E img of
             Inl err \<Rightarrow> ([Fx StEncodePNG (Some err)], Inl err)
           | Inr pngBytes \<Rightarrow>
               (let imagesBytes = map_store originalSize pngBytes [];
                    dataURIs = [imgBytesToDataURI (map_load imagesBytes originalSize)] in
                case resizePNGs E img originalSize (resizeTargets V) imagesBytes of
                  (fx, Inl err) \<Rightarrow> (Fx StEncodePNG None # fx, Inl err)
                | (fx, Inr imagesBytes') \<Rightarrow>
                    (Fx StEncodePNG None # fx,
                     Inr (imagesBytes', dataURIs @ [imgBytesToDataURI (map_load imagesBytes' ''28x28'')])))))"

definition prompt_p0 :: "vars \<Rightarrow> string" where
  "prompt_p0 V =
     ''Please review and understand the image. Using only the `respond` function call, provide values to all required or applicable fields. For all fields, use the largest provided image. For the field(s) pertaining to specific sizes, use the correct image matching that size. If an image is flagged as NSFW, use an emote name that clearly states NSFW. ''
     @ promptText V @ [CHR 0x0A] @ ''Image categories: {'' @ strings_Join (imageCategories V) '','' @ ''}''"

text \<open>part_000 435-477; the keys are visited in the order of \<^verbatim>\<open>sort.Strings\<close>.\<close>

definition storeResult_p0 ::
  "('img, 'gif, Response_t) env \<Rightarrow> vars \<Rightarrow> Response_t Result \<Rightarrow> string \<Rightarrow> (string \<times> byte list) list
     \<Rightarrow> effect list \<times> Response_t Result" where
  "storeResult_p0 E V result0 arguments imagesBytes =
     (let d = VerifySchemaAndUnmarshal E arguments (Response result0);
          result1 = unmarshal_into d result0;
          result2 = (case dec_err d of Some err \<Rightarrow> result1\<lparr>Error := Some err\<rparr> | None \<Rightarrow> result1);
          result3 = result2\<lparr>Response := (Response result2)
                      \<lparr>Response_t.TwitchEmoteName :=
                         emoteNamePrefix V @ Response_t.TwitchEmoteName (Response result2)\<rparr>\<rparr>;
          imagesBytesKeys = sort (map fst imagesBytes)
      in case saveImages E Response_t.TwitchEmoteName result3
                (map (\<lambda>key. (key, map_load imagesBytes key)) imagesBytesKeys) of
           (fx, result4, ok) \<Rightarrow>
             if \<not> ok then (Fx StUnmarshal (dec_err d) # fx, result4)
             else (let filename = Response_t.TwitchEmoteName (Response result4) @ ''.json'' in
                   case saveResultToDisk E marshal_Response_t result4 filename of
                     Some err \<Rightarrow>
                       (Fx StUnmarshal (dec_err d) # fx @ [Fx (StSaveResult filename) (Some err)],
                        result4\<lparr>Error := Some err\<rparr>)
                   | None \<Rightarrow>
                       (Fx StUnmarshal (dec_err d) # fx @ [Fx (StSaveResult filename) None], result4)))"

definition processImage_result_p0 ::
  "('img, 'gif, Response_t) env \<Rightarrow> vars \<Rightarrow> string \<Rightarrow> effect list \<times> Response_t Result" where
  "processImage_result_p0 E V path =
     (let result = \<lparr>Response = Response_t_zero, SourceFilepath = path, DestinationFiles = [],
                    Error = None, ErrorString = ''''\<rparr> in
      case getImage E path of
        Inl err \<Rightarrow> ([Fx StGetImage (Some err)], result\<lparr>Error := Some err\<rparr>)
      | Inr (img, gifImg) \<Rightarrow>
          (case convertImages_p0 E V img gifImg of
             (fx1, Inl err) \<Rightarrow> (Fx StGetImage None # fx1, result\<lparr>Error := Some err\<rparr>)
           | (fx1, Inr (imagesBytes, dataURIs)) \<Rightarrow>
               (case requestArguments E (prompt_p0 V) dataURIs of
                  (fx2, Inl err) \<Rightarrow> (Fx StGetImage None # fx1 @ fx2, result\<lparr>Error := Some err\<rparr>)
                | (fx2, Inr arguments) \<Rightarrow>
                    (case storeResult_p0 E V result arguments imagesBytes of
                       (fx3, result') \<Rightarrow> (Fx StGetImage None # fx1 @ fx2 @ fx3, result')))))"

definition processImage_p0 ::
  "('img, 'gif, Response_t) env \<Rightarrow> vars \<Rightarrow> string \<Rightarrow> Response_t Result list
     \<Rightarrow> effect list \<times> Response_t Result list" where
  "processImage_p0 E V path results =
     (case processImage_result_p0 E V path of (fx, result) \<Rightarrow> (fx, results @ [result]))"

section \<open>The driver: main and its goroutines\<close>

text \<open>
  \<^verbatim>\<open>main\<close> (main.go 83-124, part_000 262-304) starts two goroutines, the enqueuing
  loop and the waiter, and the loop starts one goroutine for each path. The model is an
  interleaving of atomic steps: each step is one synchronisation operation of one
  goroutine (a channel send or receive, a wait group operation, a \<^verbatim>\<open>go\<close> statement)
  together with the local computation that leads to it. A schedule is the list of the
  goroutines that are given a turn; a goroutine whose next operation blocks does not
  move.

  What the two generations share is written once. The loop of part_000 calls
  \<^verbatim>\<open>limiter.Wait()\<close> first; \<^verbatim>\<open>main.go\<close> has no limiter, which is \<open>prog_limiter = None\<close>.
\<close>

record 'r program =
  prog_limiter :: "Limiter option"
  prog_maxConcurrent :: int
  prog_args :: "string list"
  prog_process :: "string \<Rightarrow> 'r Result"
  prog_marshal :: "'r \<Rightarrow> json_object"

datatype main_pc = M_start | M_add | M_go_loop | M_go_waiter | M_range | M_usage | M_returned

datatype loop_pc =
    L_idle
  | L_next "string list"
  | L_sem string "string list"
  | L_add string "string list"
  | L_go string "string list"
  | L_exit

datatype wait_pc = W_idle | W_wait | W_close | W_exit

datatype 'r task_pc = T_run | T_send "'r Result" | T_release | T_done | T_exit

datatype actor = Main | Loop | Waiter | Task nat | Ticker

datatype event =
    EvUsage
  | EvRegisterLoop
  | EvStartLoop
  | EvStartWaiter
  | EvToken nat
  | EvSlot nat
  | EvRegister nat
  | EvSpawn nat
  | EvProcess nat
  | EvDeliver nat
  | EvRelease nat
  | EvRetire nat
  | EvRetireLoop
  | EvWaitReturns
  | EvClose
  | EvCompleted

datatype out_line = Line string | Record json_object

record 'r state =
  limiter :: "Limiter option"
  main_pc :: main_pc
  loop_pc :: loop_pc
  wait_pc :: wait_pc
  tasks :: "(string \<times> 'r task_pc) list"
  sem :: unit_chan
  wg :: int
  results :: "'r Result list"
  results_cap :: nat
  closed :: bool
  stdout :: "out_line list"
  panicked :: "panic option"
  delivered :: "(nat \<times> 'r Result) list"
  received :: "'r Result list"
  trace :: "event list"

definition init :: "'r program \<Rightarrow> 'r state" where
  "init P = \<lparr>limiter = prog_limiter P, main_pc = M_start, loop_pc = L_idle, wait_pc = W_idle,
     tasks = [], sem = \<lparr>ch_cap = 0, ch_len = 0\<rparr>, wg = 0, results = [], results_cap = 0,
     closed = False, stdout = [], panicked = None, delivered = [], received = [], trace = []\<rparr>"

text \<open>\<^verbatim>\<open>wg.Add(delta)\<close>; \<^verbatim>\<open>wg.Done()\<close> is \<^verbatim>\<open>wg.Add(-1)\<close>.\<close>

definition wg_Add :: "int \<Rightarrow> 'r state \<Rightarrow> 'r state" where
  "wg_Add delta s =
     (if wg s + delta < 0 then s\<lparr>panicked := Some PanicWaitGroup\<rparr> else s\<lparr>wg := wg s + delta\<rparr>)"

definition usage_text :: string where
  "usage_text = ''Please provide a path to one or more valid image files as an argument.''"

text \<open>The body of the range loop of \<^verbatim>\<open>main\<close> for one received result (main.go 114-122).\<close>

definition output_result :: "'r Result \<Rightarrow> 'r Result" where
  "output_result result =
     (case Error result of
        Some err \<Rightarrow> result\<lparr>ErrorString := message err\<rparr>
      | None \<Rightarrow> result)"

definition step_main :: "'r program \<Rightarrow> 'r state \<Rightarrow> 'r state option" where
  "step_main P s =
     (case main_pc s of
        M_start \<Rightarrow>
          if length (prog_args P) = 0
          then Some (s\<lparr>stdout := stdout s @ [Line usage_text], main_pc := M_usage,
                       trace := trace s @ [EvUsage]\<rparr>)
          else (case make_chan (prog_maxConcurrent P) of
                  Inl p \<Rightarrow> Some (s\<lparr>panicked := Some p\<rparr>)
                | Inr c \<Rightarrow> Some (s\<lparr>sem := c, results_cap := length (prog_args P), main_pc := M_add\<rparr>))
      | M_add \<Rightarrow> Some ((wg_Add 1 s)\<lparr>main_pc := M_go_loop, trace := trace s @ [EvRegisterLoop]\<rparr>)
      | M_go_loop \<Rightarrow>
          Some (s\<lparr>loop_pc := L_next (prog_args P), main_pc := M_go_waiter,
                  trace := trace s @ [EvStartLoop]\<rparr>)
      | M_go_waiter \<Rightarrow>
          Some (s\<lparr>wait_pc := W_wait, main_pc := M_range, trace := trace s @ [EvStartWaiter]\<rparr>)
      | M_range \<Rightarrow>
          (case results s of
             result # rest \<Rightarrow>
               Some (s\<lparr>results := rest, received := received s @ [result],
                       stdout := stdout s
                         @ [Record (marshal_Result (prog_marshal P) (output_result result))]\<rparr>)
           | [] \<Rightarrow>
               if closed s then Some (s\<lparr>main_pc := M_returned, trace := trace s @ [EvCompleted]\<rparr>)
               else None)
      | M_usage \<Rightarrow> None
      | M_returned \<Rightarrow> None)"

text \<open>
  The first task that waits at \<^verbatim>\<open><-sem\<close>, for the hand-over on an unbuffered
  semaphore.
\<close>

fun find_release :: "(string \<times> 'r task_pc) list \<Rightarrow> nat option" where
  "find_release [] = None"
| "find_release ((p, T_release) # ts) = Some 0"
| "find_release ((p, pc) # ts) = map_option Suc (find_release ts)"

definition step_loop :: "'r state \<Rightarrow> 'r state option" where
  "step_loop s =
     (case loop_pc s of
        L_idle \<Rightarrow> None
      | L_next [] \<Rightarrow> Some ((wg_Add (- 1) s)\<lparr>loop_pc := L_exit, trace := trace s @ [EvRetireLoop]\<rparr>)
      | L_next (path # rest) \<Rightarrow>
          (case limiter s of
             None \<Rightarrow> Some (s\<lparr>loop_pc := L_sem path rest\<rparr>)
           | Some l \<Rightarrow>
               (case Wait l of
                  None \<Rightarrow> None
                | Some l' \<Rightarrow>
                    Some (s\<lparr>limiter := Some l', loop_pc := L_sem path rest,
                            trace := trace s @ [EvToken (length (tasks s))]\<rparr>)))
      | L_sem path rest \<Rightarrow>
          (case ch_send (sem s) of
             Some c \<Rightarrow>
               Some (s\<lparr>sem := c, loop_pc := L_add path rest,
                       trace := trace s @ [EvSlot (length (tasks s))]\<rparr>)
           | None \<Rightarrow>
               if ch_cap (sem s) = 0
               then (case find_release (tasks s) of
                       None \<Rightarrow> None
                     | Some j \<Rightarrow>
                         Some (s\<lparr>tasks := (tasks s)[j := (fst (tasks s ! j), T_done)],
                                 loop_pc := L_add path rest,
                                 trace := trace s @ [EvSlot (length (tasks s)), EvRelease j]\<rparr>))
               else None)
      | L_add path rest \<Rightarrow>
          Some ((wg_Add 1 s)\<lparr>loop_pc := L_go path rest,
                  trace := trace s @ [EvRegister (length (tasks s))]\<rparr>)
      | L_go path rest \<Rightarrow>
          Some (s\<lparr>tasks := tasks s @ [(path, T_run)], loop_pc := L_next rest,
                  trace := trace s @ [EvSpawn (length (tasks s))]\<rparr>)
      | L_exit \<Rightarrow> None)"

definition step_task :: "'r program \<Rightarrow> nat \<Rightarrow> 'r state \<Rightarrow> 'r state option" where
  "step_task P j s =
     (if j < length (tasks s)
      then (case tasks s ! j of
              (path, T_run) \<Rightarrow>
                Some (s\<lparr>tasks := (tasks s)[j := (path, T_send (prog_process P path))],
                        trace := trace s @ [EvProcess j]\<rparr>)
            | (path, T_send result) \<Rightarrow>
                if closed s then Some (s\<lparr>panicked := Some PanicClosedChannel\<rparr>)
                else if length (results s) < results_cap s
                then Some (s\<lparr>results := results s @ [result],
                             delivered := delivered s @ [(j, result)],
                             tasks := (tasks s)[j := (path, T_release)],
                             trace := trace s @ [EvDeliver j]\<rparr>)
                else None
            | (path, T_release) \<Rightarrow>
                (case ch_recv (sem s) of
                   Some c \<Rightarrow>
                     Some (s\<lparr>sem := c, tasks := (tasks s)[j := (path, T_done)],
                             trace := trace s @ [EvRelease j]\<rparr>)
                 | None \<Rightarrow> None)
            | (path, T_done) \<Rightarrow>
                Some ((wg_Add (- 1) s)\<lparr>tasks := (tasks s)[j := (path, T_exit)],
                        trace := trace s @ [EvRetire j]\<rparr>)
            | (path, T_exit) \<Rightarrow> None)
      else None)"

definition step_waiter :: "'r state \<Rightarrow> 'r state option" where
  "step_waiter s =
     (case wait_pc s of
        W_idle \<Rightarrow> None
      | W_wait \<Rightarrow>
          if wg s = 0 then Some (s\<lparr>wait_pc := W_close, trace := trace s @ [EvWaitReturns]\<rparr>)
          else None
      | W_close \<Rightarrow>
          if closed s then Some (s\<lparr>panicked := Some PanicClosedChannel\<rparr>)
          else Some (s\<lparr>closed := True, wait_pc := W_exit, trace := trace s @ [EvClose]\<rparr>)
      | W_exit \<Rightarrow> None)"

definition step_ticker :: "'r state \<Rightarrow> 'r state option" where
  "step_ticker s =
     (case limiter s of
        None \<Rightarrow> None
      | Some l \<Rightarrow> Some (s\<lparr>limiter := Some (refillTokens l)\<rparr>))"

text \<open>
  When \<^verbatim>\<open>main\<close> has returned or a goroutine has panicked the process is over: nothing
  moves any more.
\<close>

definition step :: "'r program \<Rightarrow> actor \<Rightarrow> 'r state \<Rightarrow> 'r state option" where
  "step P a s =
     (if main_pc s = M_usage \<or> main_pc s = M_returned \<or> panicked s \<noteq> None then None
      else (case a of
              Main \<Rightarrow> step_main P s
            | Loop \<Rightarrow> step_loop s
            | Waiter \<Rightarrow> step_waiter s
            | Task j \<Rightarrow> step_task P j s
            | Ticker \<Rightarrow> step_ticker s))"

fun run :: "'r program \<Rightarrow> actor list \<Rightarrow> 'r state \<Rightarrow> 'r state" where
  "run P [] s = s"
| "run P (a # sched) s = (case step P a s of None \<Rightarrow> run P sched s | Some s' \<Rightarrow> run P sched s')"

text \<open>
  A task is inside \<^verbatim>\<open>processImage\<close> from the moment it is spawned until the deferred
  send has gone through.
\<close>

fun in_processImage :: "'r task_pc \<Rightarrow> bool" where
  "in_processImage T_run = True"
| "in_processImage (T_send r) = True"
| "in_processImage pc = False"

definition executing :: "'r state \<Rightarrow> nat" where
  "executing s = length (filter (\<lambda>t. in_processImage (snd t)) (tasks s))"

definition precedes :: "event \<Rightarrow> event \<Rightarrow> event list \<Rightarrow> bool" where
  "precedes a b tr \<longleftrightarrow> (b \<in> set tr \<longrightarrow> a \<in> set (takeWhile (\<lambda>e. e \<noteq> b) tr))"

section \<open>Start-up\<close>

text \<open>
  The package-level initialisers of part_000 that read the two bounds (226-233), in the
  order of their declarations: \<^verbatim>\<open>maxConcurrent\<close> first, \<^verbatim>\<open>limiter\<close> later. The other
  initialisers (the API client, the prompt, the categories, the sizes) and the body of
  \<^verbatim>\<open>init\<close> (working directory, schema) are not part of this model.
\<close>

definition package_init_p0 :: "(string \<rightharpoonup> string) \<Rightarrow> (int \<times> Limiter) outcome" where
  "package_init_p0 environ =
     (case mustGetEnvInt environ ''OPENAI_API_MAX_CONCURRENT'' 1 of
        Inl p \<Rightarrow> Panics p
      | Inr maxConcurrent \<Rightarrow>
          (case mustGetEnvInt environ ''OPENAI_API_MAX_RPM'' 10 of
             Inl p \<Rightarrow> Panics p
           | Inr rpm \<Rightarrow>
               (case NewLimiter rpm of
                  Panics p \<Rightarrow> Panics p
                | Blocks \<Rightarrow> Blocks
                | Returns l \<Rightarrow> Returns (maxConcurrent, l))))"

text \<open>
  \<^verbatim>\<open>init\<close> of \<^verbatim>\<open>main.go\<close> (76-80): \<^verbatim>\<open>maxConcurrent\<close> starts at 1 and is replaced only
  when the variable is set to something \<^verbatim>\<open>strconv.Atoi\<close> accepts. \<^verbatim>\<open>os.Getenv\<close> gives
  the empty string for a variable that is not set.
\<close>

definition init_main_go :: "(string \<rightharpoonup> string) \<Rightarrow> int" where
  "init_main_go environ =
     (let mc = (case environ ''OPENAI_API_MAX_CONCURRENT'' of None \<Rightarrow> '''' | Some v \<Rightarrow> v) in
      if mc \<noteq> '''' then (case Atoi mc of Inr n \<Rightarrow> n | Inl err \<Rightarrow> 1) else 1)"

text \<open>The two commands, as programs of the driver.\<close>

definition program_main_go ::
  "('img, 'gif, Response) env \<Rightarrow> vars \<Rightarrow> int \<Rightarrow> string list \<Rightarrow> Response program" where
  "program_main_go E V maxConcurrent args =
     \<lparr>prog_limiter = None, prog_maxConcurrent = maxConcurrent, prog_args = args,
      prog_process = (\<lambda>path. snd (processImage_result E V path)),
      prog_marshal = marshal_Response\<rparr>"

definition program_p0 ::
  "('img, 'gif, Response_t) env \<Rightarrow> vars \<Rightarrow> int \<times> Limiter \<Rightarrow> string list \<Rightarrow> Response_t program" where
  "program_p0 E V config args =
     \<lparr>prog_limiter = Some (snd config), prog_maxConcurrent = fst config, prog_args = args,
      prog_process = (\<lambda>path. snd (processImage_result_p0 E V path)),
      prog_marshal = marshal_Response_t\<rparr>"

section \<open>Example environments\<close>

text \<open>
  Concrete collaborators for the examples: a file system in which every path except
  \<^verbatim>\<open>missing.png\<close> opens, a decoder for 64x64 PNG files, and a service that answers
  with one tool call. \<open>quoted\<close> puts a string between double quotes.
\<close>

definition quoted :: "string \<Rightarrow> string" where
  "quoted s = [CHR 0x22] @ s @ [CHR 0x22]"

definition example_arguments :: string where
  "example_arguments = ''{'' @ quoted ''twitchEmoteName'' @ '':'' @ quoted ''strim99Stonks'' @ '',''
     @ quoted ''filename'' @ '':'' @ quoted ''strim99Stonks'' @ ''}''"

definition example_env :: "(nat, nat, Response) env" where
  "example_env =
     \<lparr>os_Open = (\<lambda>p. if p = ''missing.png''
                      then Inl (Err ''open missing.png: no such file or directory'')
                      else Inr [0x89, 0x50, 0x4E, 0x47]),
      image_DecodeConfig =
        (\<lambda>f. Inr (\<lparr>ColorModel = Some (ColorModelOf 0), Width = 64, Height = 64\<rparr>, ''png'')),
      gif_DecodeAll = (\<lambda>f. Inl (Err ''gif: can't recognize format '')),
      gif_Image0 = (\<lambda>g. 0),
      image_Decode = (\<lambda>f. (''png'', Inr 1)),
      img_Bounds = (\<lambda>i. (64, 64)),
      png_Encode = (\<lambda>i. Inr [0x89, 0x50, 0x4E, 0x47]),
      gif_EncodeAll = (\<lambda>g. Inr [0x47, 0x49, 0x46, 0x38]),
      resizeToSquare = (\<lambda>i n. n),
      resizeGIFToSquare = (\<lambda>g n. n),
      CreateChatCompletion = (\<lambda>text uris. Inr [[example_arguments]]),
      VerifySchemaAndUnmarshal =
        (\<lambda>arguments r.
           \<lparr>dec_err = None,
            dec_Response = r\<lparr>Response.TwitchEmoteName := ''strim99Stonks'', Filename := ''strim99Stonks''\<rparr>,
            dec_source = None, dec_destination = None, dec_error = None\<rparr>),
      os_Create = (\<lambda>p. None),
      file_Write = (\<lambda>p d. None),
      map_range = (\<lambda>m. m)\<rparr>"

definition example_vars :: vars where
  "example_vars = \<lparr>promptText = ''Describe the emote.'', emoteNamePrefix = ''emmaly'',
     imageCategories = [''happy'', ''sad''], resizeTargets = [320, 28]\<rparr>"

text \<open>
  The same service, answering with arguments that also carry the members
  \<^verbatim>\<open>source\<close> and \<^verbatim>\<open>error\<close>; the decoder stores them in the fields so tagged.
\<close>

definition intruding_arguments :: string where
  "intruding_arguments = ''{'' @ quoted ''twitchEmoteName'' @ '':'' @ quoted ''strim99Stonks'' @ '',''
     @ quoted ''filename'' @ '':'' @ quoted ''strim99Stonks'' @ '',''
     @ quoted ''source'' @ '':'' @ quoted ''other.png'' @ '',''
     @ quoted ''error'' @ '':'' @ quoted ''none'' @ ''}''"

definition intruding_env :: "(nat, nat, Response) env" where
  "intruding_env = example_env
     \<lparr>CreateChatCompletion := (\<lambda>text uris. Inr [[intruding_arguments]]),
      VerifySchemaAndUnmarshal :=
        (\<lambda>arguments r.
           \<lparr>dec_err = None,
            dec_Response = r\<lparr>Response.TwitchEmoteName := ''strim99Stonks'', Filename := ''strim99Stonks''\<rparr>,
            dec_source = (if arguments = intruding_arguments then Some ''other.png'' else None),
            dec_destination = None,
            dec_error = (if arguments = intruding_arguments then Some ''none'' else None)\<rparr>)\<rparr>"

definition example_schedule :: "actor list" where
  "example_schedule =
     [Main, Main, Main, Main, Loop, Loop, Loop, Loop, Loop, Ticker, Loop, Task 0, Task 0, Loop,
      Task 0, Loop, Loop, Loop, Task 1, Task 1, Task 1, Task 1, Task 0, Loop, Waiter, Waiter,
      Main, Main, Main]"

definition example_program :: "Response program" where
  "example_program =
     (program_main_go example_env example_vars 1 [''a.png'', ''missing.png''])
       \<lparr>prog_limiter := Some \<lparr>rate = 1, tokens = \<lparr>ch_cap = 1, ch_len = 1\<rparr>, ticker = 60000000000\<rparr>\<rparr>"

text \<open>The state a schedule leads to, from the initial state.\<close>

abbreviation exec :: "'r program \<Rightarrow> actor list \<Rightarrow> 'r state" where
  "exec P sched \<equiv> run P sched (init P)"

section \<open>Invariants of the driver\<close>

fun holds_slot :: "'r task_pc \<Rightarrow> int" where
  "holds_slot T_run = 1"
| "holds_slot (T_send r) = 1"
| "holds_slot T_release = 1"
| "holds_slot T_done = 0"
| "holds_slot T_exit = 0"

fun live :: "'r task_pc \<Rightarrow> int" where
  "live T_exit = 0"
| "live pc = 1"

fun has_sent :: "'r task_pc \<Rightarrow> bool" where
  "has_sent T_run = False"
| "has_sent (T_send r) = False"
| "has_sent pc = True"

definition total :: "('r task_pc \<Rightarrow> int) \<Rightarrow> (string \<times> 'r task_pc) list \<Rightarrow> int" where
  "total f ts = sum_list (map (\<lambda>t. f (snd t)) ts)"

definition registered :: "'r state \<Rightarrow> bool" where
  "registered s \<longleftrightarrow> main_pc s \<in> {M_go_loop, M_go_waiter, M_range, M_returned}"

fun loop_holds :: "loop_pc \<Rightarrow> int" where
  "loop_holds (L_add p ps) = 1"
| "loop_holds (L_go p ps) = 1"
| "loop_holds pc = 0"

fun loop_added :: "loop_pc \<Rightarrow> int" where
  "loop_added (L_go p ps) = 1"
| "loop_added pc = 0"

fun loop_rest :: "loop_pc \<Rightarrow> string list option" where
  "loop_rest L_idle = None"
| "loop_rest (L_next ps) = Some ps"
| "loop_rest (L_sem p ps) = Some (p # ps)"
| "loop_rest (L_add p ps) = Some (p # ps)"
| "loop_rest (L_go p ps) = Some (p # ps)"
| "loop_rest L_exit = Some []"

definition inv_ctrl :: "'r program \<Rightarrow> 'r state \<Rightarrow> bool" where
  "inv_ctrl P s \<longleftrightarrow>
     (limiter s = None \<longleftrightarrow> prog_limiter P = None)
   \<and> map fst (tasks s) = take (length (tasks s)) (prog_args P)
   \<and> length (tasks s) \<le> length (prog_args P)
   \<and> (case loop_rest (loop_pc s) of
         None \<Rightarrow> tasks s = [] \<and> main_pc s \<in> {M_start, M_add, M_go_loop, M_usage}
       | Some ps \<Rightarrow> ps = drop (length (tasks s)) (prog_args P)
                    \<and> main_pc s \<in> {M_go_waiter, M_range, M_returned})
   \<and> (main_pc s \<notin> {M_start, M_usage} \<longrightarrow>
        ch_cap (sem s) = nat (prog_maxConcurrent P) \<and> 0 \<le> prog_maxConcurrent P
        \<and> results_cap s = length (prog_args P) \<and> prog_args P \<noteq> [])
   \<and> (main_pc s = M_start \<longrightarrow> sem s = \<lparr>ch_cap = 0, ch_len = 0\<rparr>)
   \<and> (main_pc s = M_usage \<longrightarrow> prog_args P = [])
   \<and> (wait_pc s = W_idle \<longleftrightarrow> main_pc s \<in> {M_start, M_add, M_go_loop, M_go_waiter, M_usage})"

definition inv_panic :: "'r program \<Rightarrow> 'r state \<Rightarrow> bool" where
  "inv_panic P s \<longleftrightarrow>
     (panicked s \<noteq> None \<longrightarrow>
        panicked s = Some PanicMakechan \<and> main_pc s = M_start \<and> prog_maxConcurrent P < 0
        \<and> prog_args P \<noteq> [])"

definition inv_wg :: "'r state \<Rightarrow> bool" where
  "inv_wg s \<longleftrightarrow>
     wg s = (if registered s \<and> loop_pc s \<noteq> L_exit then 1 else 0) + loop_added (loop_pc s)
            + total live (tasks s)"

definition inv_sem :: "'r state \<Rightarrow> bool" where
  "inv_sem s \<longleftrightarrow>
     int (ch_len (sem s)) = loop_holds (loop_pc s) + total holds_slot (tasks s)
   \<and> ch_len (sem s) \<le> ch_cap (sem s)"

definition inv_wait :: "'r state \<Rightarrow> bool" where
  "inv_wait s \<longleftrightarrow>
     (wait_pc s \<in> {W_close, W_exit} \<longrightarrow> loop_pc s = L_exit \<and> total live (tasks s) = 0)
   \<and> (closed s \<longleftrightarrow> wait_pc s = W_exit)
   \<and> (main_pc s = M_returned \<longrightarrow> closed s \<and> results s = [])"

definition inv_chan :: "'r state \<Rightarrow> bool" where
  "inv_chan s \<longleftrightarrow> map snd (delivered s) = received s @ results s"

definition inv_sent :: "'r state \<Rightarrow> bool" where
  "inv_sent s \<longleftrightarrow>
     distinct (map fst (delivered s))
   \<and> set (map fst (delivered s)) = {j. j < length (tasks s) \<and> has_sent (snd (tasks s ! j))}"

definition inv_vals :: "'r program \<Rightarrow> 'r state \<Rightarrow> bool" where
  "inv_vals P s \<longleftrightarrow>
     (\<forall>(j, r) \<in> set (delivered s). r = prog_process P (prog_args P ! j))
   \<and> (\<forall>j < length (tasks s). \<forall>r. snd (tasks s ! j) = T_send r \<longrightarrow> r = prog_process P (fst (tasks s ! j)))"

definition inv_out :: "'r program \<Rightarrow> 'r state \<Rightarrow> bool" where
  "inv_out P s \<longleftrightarrow>
     stdout s = (if main_pc s = M_usage then [Line usage_text]
                 else map (\<lambda>r. Record (marshal_Result (prog_marshal P) (output_result r))) (received s))"

definition Inv :: "'r program \<Rightarrow> 'r state \<Rightarrow> bool" where
  "Inv P s \<longleftrightarrow> inv_ctrl P s \<and> inv_panic P s \<and> inv_wg s \<and> inv_sem s \<and> inv_wait s
     \<and> inv_chan s \<and> inv_sent s \<and> inv_vals P s \<and> inv_out P s"

section \<open>The order of events\<close>

text \<open>
  Which events a state has behind it, read off the program counters, and the order in
  which the program emits them.
\<close>

fun task_rank :: "'r task_pc \<Rightarrow> nat" where
  "task_rank T_run = 0"
| "task_rank (T_send r) = 1"
| "task_rank T_release = 2"
| "task_rank T_done = 3"
| "task_rank T_exit = 4"

fun loop_rank :: "loop_pc \<Rightarrow> nat" where
  "loop_rank (L_sem p ps) = 1"
| "loop_rank (L_add p ps) = 2"
| "loop_rank (L_go p ps) = 3"
| "loop_rank pc = 0"

fun happened :: "'r state \<Rightarrow> event \<Rightarrow> bool" where
  "happened s EvUsage = (main_pc s = M_usage)"
| "happened s EvRegisterLoop = registered s"
| "happened s EvStartLoop = (loop_pc s \<noteq> L_idle)"
| "happened s EvStartWaiter = (wait_pc s \<noteq> W_idle)"
| "happened s (EvToken i) =
     (limiter s \<noteq> None \<and> (i < length (tasks s) \<or> (i = length (tasks s) \<and> 1 \<le> loop_rank (loop_pc s))))"
| "happened s (EvSlot i) = (i < length (tasks s) \<or> (i = length (tasks s) \<and> 2 \<le> loop_rank (loop_pc s)))"
| "happened s (EvRegister i) = (i < length (tasks s) \<or> (i = length (tasks s) \<and> 3 \<le> loop_rank (loop_pc s)))"
| "happened s (EvSpawn i) = (i < length (tasks s))"
| "happened s (EvProcess i) = (i < length (tasks s) \<and> 1 \<le> task_rank (snd (tasks s ! i)))"
| "happened s (EvDeliver i) = (i < length (tasks s) \<and> 2 \<le> task_rank (snd (tasks s ! i)))"
| "happened s (EvRelease i) = (i < length (tasks s) \<and> 3 \<le> task_rank (snd (tasks s ! i)))"
| "happened s (EvRetire i) = (i < length (tasks s) \<and> 4 \<le> task_rank (snd (tasks s ! i)))"
| "happened s EvRetireLoop = (loop_pc s = L_exit)"
| "happened s EvWaitReturns = (wait_pc s = W_close \<or> wait_pc s = W_exit)"
| "happened s EvClose = closed s"
| "happened s EvCompleted = (main_pc s = M_returned)"

inductive before :: "'r program \<Rightarrow> event \<Rightarrow> event \<Rightarrow> bool" for P :: "'r program" where
  loop_start: "before P EvRegisterLoop EvStartLoop"
| loop_waiter: "before P EvRegisterLoop EvStartWaiter"
| loop_spawn: "before P EvRegisterLoop (EvSpawn i)"
| token_slot: "prog_limiter P \<noteq> None \<Longrightarrow> before P (EvToken i) (EvSlot i)"
| slot_register: "before P (EvSlot i) (EvRegister i)"
| slot_spawn: "before P (EvSlot i) (EvSpawn i)"
| register_spawn: "before P (EvRegister i) (EvSpawn i)"
| spawn_process: "before P (EvSpawn i) (EvProcess i)"
| process_deliver: "before P (EvProcess i) (EvDeliver i)"
| deliver_release: "before P (EvDeliver i) (EvRelease i)"
| deliver_retire: "before P (EvDeliver i) (EvRetire i)"
| release_retire: "before P (EvRelease i) (EvRetire i)"
| deliver_close: "i < length (prog_args P) \<Longrightarrow> before P (EvDeliver i) EvClose"
| retire_wait: "i < length (prog_args P) \<Longrightarrow> before P (EvRetire i) EvWaitReturns"
| retire_loop_wait: "before P EvRetireLoop EvWaitReturns"
| wait_close: "before P EvWaitReturns EvClose"
| close_completed: "before P EvClose EvCompleted"

definition inv_trace :: "'r program \<Rightarrow> 'r state \<Rightarrow> bool" where
  "inv_trace P s \<longleftrightarrow>
     (\<forall>e. happened s e \<longrightarrow> e \<in> set (trace s))
   \<and> (\<forall>a b. before P a b \<longrightarrow> precedes a b (trace s))"

chapter \<open>Properties\<close>

section \<open>Data URIs and file extensions\<close>

lemma gif_magic_index:
  "(length b > 3 \<and> b ! 0 = 0x47 \<and> b ! 1 = 0x49 \<and> b ! 2 = 0x46) \<longleftrightarrow>
   (length b > 3 \<and> take 3 b = [0x47, 0x49, 0x46 :: byte])"
proof (cases b)
  case Nil
  then show ?thesis by simp
next
  case b1: (Cons x1 r1)
  show ?thesis
  proof (cases r1)
    case Nil
    with b1 show ?thesis by simp
  next
    case b2: (Cons x2 r2)
    show ?thesis
    proof (cases r2)
      case Nil
      with b1 b2 show ?thesis by simp
    next
      case (Cons x3 r3)
      with b1 b2 show ?thesis by auto
    qed
  qed
qed

text \<open>
  C10: for every byte slice, the data URI starts with \<open>data:image/gif;base64,\<close> exactly
  when the slice is longer than three bytes and begins with 0x47 0x49 0x46, and with
  \<open>data:image/png;base64,\<close> exactly otherwise; the extension used when saving the same
  bytes is \<open>gif\<close> in the first case and \<open>png\<close> in the second.
\<close>

theorem imgBytesToDataURI_prefix:
  "(prefix ''data:image/gif;base64,'' (imgBytesToDataURI b)
      \<longleftrightarrow> length b > 3 \<and> take 3 b = [0x47, 0x49, 0x46]) \<and>
   (prefix ''data:image/png;base64,'' (imgBytesToDataURI b)
      \<longleftrightarrow> \<not> (length b > 3 \<and> take 3 b = [0x47, 0x49, 0x46])) \<and>
   (fileExtension b = ''gif'' \<longleftrightarrow> length b > 3 \<and> take 3 b = [0x47, 0x49, 0x46]) \<and>
   (fileExtension b = ''png'' \<longleftrightarrow> \<not> (length b > 3 \<and> take 3 b = [0x47, 0x49, 0x46]))"
  unfolding gif_magic_index [symmetric]
  by (simp add: imgBytesToDataURI_def fileExtension_def Let_def)

section \<open>The limiter\<close>

lemma fillBucket_tokens:
  "0 \<le> i \<Longrightarrow> i \<le> r \<Longrightarrow> ch_len (tokens l) = nat i \<Longrightarrow> ch_cap (tokens l) = nat r \<Longrightarrow>
   \<exists>c. fillBucket l r i = Some (l\<lparr>tokens := c\<rparr>) \<and> ch_len c = nat r \<and> ch_cap c = nat r"
proof (induction l r i rule: fillBucket.induct)
  case (1 l r i)
  show ?case
  proof (cases "i < r")
    case True
    then have "ch_len (tokens l) < ch_cap (tokens l)" using 1 by simp
    then have s: "ch_send (tokens l) = Some ((tokens l)\<lparr>ch_len := ch_len (tokens l) + 1\<rparr>)"
      by (simp add: ch_send_def)
    let ?c = "(tokens l)\<lparr>ch_len := ch_len (tokens l) + 1\<rparr>"
    have "\<exists>c. fillBucket (l\<lparr>tokens := ?c\<rparr>) r (i + 1) = Some (l\<lparr>tokens := ?c\<rparr>\<lparr>tokens := c\<rparr>)
            \<and> ch_len c = nat r \<and> ch_cap c = nat r"
      using 1 True s by (intro "1.IH"[OF True s]) (auto simp: nat_add_distrib)
    then show ?thesis using True s by (subst fillBucket.simps) auto
  next
    case False
    with 1 have "i = r" by simp
    then show ?thesis using 1
      by (subst fillBucket.simps) (auto intro!: exI[of _ "tokens l"])
  qed
qed

lemma minute_div_pos: "0 < C \<Longrightarrow> (minute_ns div C \<le> 0) = (minute_ns < C)"
  by (smt (verit) div_pos_pos_trivial minute_ns_def pos_imp_zdiv_pos_iff zdiv_eq_0_iff)

lemma NewLimiter_Returns:
  "NewLimiter C = Returns l \<longleftrightarrow>
     0 < C \<and> C \<le> minute_ns \<and>
     l = \<lparr>rate = C, tokens = \<lparr>ch_cap = nat C, ch_len = nat C\<rparr>, ticker = minute_ns div C\<rparr>"
proof -
  have fill: "0 < C \<Longrightarrow>
      fillBucket \<lparr>rate = C, tokens = \<lparr>ch_cap = nat C, ch_len = 0\<rparr>, ticker = t\<rparr> C 0
      = Some \<lparr>rate = C, tokens = \<lparr>ch_cap = nat C, ch_len = nat C\<rparr>, ticker = t\<rparr>" for t
    using fillBucket_tokens[of 0 C "\<lparr>rate = C, tokens = \<lparr>ch_cap = nat C, ch_len = 0\<rparr>, ticker = t\<rparr>"]
    by auto
  show ?thesis
    by (cases "0 < C") (auto simp: NewLimiter_def make_chan_def NewTicker_def fill minute_div_pos)
qed

lemma refillTokens_len:
  "ch_len (tokens (refillTokens l)) =
     (if ch_len (tokens l) < ch_cap (tokens l) then ch_len (tokens l) + 1 else ch_len (tokens l))"
  by (simp add: refillTokens_def ch_send_def)

lemma refillTokens_cap: "ch_cap (tokens (refillTokens l)) = ch_cap (tokens l)"
  by (simp add: refillTokens_def ch_send_def)

lemma Wait_len:
  "Wait l = (if 0 < ch_len (tokens l)
             then Some (l\<lparr>tokens := (tokens l)\<lparr>ch_len := ch_len (tokens l) - 1\<rparr>\<rparr>) else None)"
  by (simp add: Wait_def ch_recv_def)

lemma limiter_run_bounded:
  "ch_len (tokens l) \<le> ch_cap (tokens l) \<Longrightarrow>
   ch_len (tokens (limiter_run ops l)) \<le> ch_cap (tokens (limiter_run ops l)) \<and>
   ch_cap (tokens (limiter_run ops l)) = ch_cap (tokens l)"
proof (induction ops arbitrary: l)
  case Nil
  then show ?case by simp
next
  case (Cons a ops)
  show ?case
  proof (cases a)
    case Tick
    have "ch_len (tokens (refillTokens l)) \<le> ch_cap (tokens (refillTokens l))"
      using Cons.prems by (simp add: refillTokens_len refillTokens_cap)
    from Cons.IH[OF this] show ?thesis using Tick by (simp add: refillTokens_cap)
  next
    case Acquire
    show ?thesis
    proof (cases "0 < ch_len (tokens l)")
      case True
      let ?l = "l\<lparr>tokens := (tokens l)\<lparr>ch_len := ch_len (tokens l) - 1\<rparr>\<rparr>"
      have "ch_len (tokens ?l) \<le> ch_cap (tokens ?l)" using Cons.prems by simp
      from Cons.IH[OF this] show ?thesis using Acquire True by (simp add: Wait_len)
    next
      case False
      then show ?thesis using Acquire Cons.IH[OF Cons.prems] by (simp add: Wait_len)
    qed
  qed
qed

text \<open>
  C4: a limiter constructed with capacity \<open>C\<close> starts with \<open>C\<close> tokens in a reservoir of
  capacity \<open>C\<close> and a ticker of period \<open>60 s / C\<close> (in whole nanoseconds); after any
  sequence of ticks and \<open>Wait\<close> calls the occupancy is at most \<open>C\<close>; a tick adds exactly
  one token when the occupancy is below \<open>C\<close> and is dropped otherwise; a \<open>Wait\<close> that
  returns has consumed exactly one token, and it blocks only on an empty reservoir.
\<close>

theorem limiter_reservoir_bounded:
  assumes "NewLimiter C = Returns l0"
  shows "ch_len (tokens l0) = nat C \<and> ch_cap (tokens l0) = nat C \<and> 0 < C
       \<and> ticker l0 = minute_ns div C
       \<and> (\<forall>ops. ch_len (tokens (limiter_run ops l0)) \<le> nat C)
       \<and> (\<forall>ops. ch_len (tokens (refillTokens (limiter_run ops l0))) =
                  (if ch_len (tokens (limiter_run ops l0)) < nat C
                   then ch_len (tokens (limiter_run ops l0)) + 1
                   else ch_len (tokens (limiter_run ops l0))))
       \<and> (\<forall>ops. case Wait (limiter_run ops l0) of
                   None \<Rightarrow> ch_len (tokens (limiter_run ops l0)) = 0
                 | Some l' \<Rightarrow> ch_len (tokens l') + 1 = ch_len (tokens (limiter_run ops l0)))"
proof -
  from assms have l0: "0 < C"
    "l0 = \<lparr>rate = C, tokens = \<lparr>ch_cap = nat C, ch_len = nat C\<rparr>, ticker = minute_ns div C\<rparr>"
    by (simp_all add: NewLimiter_Returns)
  have le: "ch_len (tokens l0) \<le> ch_cap (tokens l0)" using l0 by simp
  have cap: "ch_cap (tokens (limiter_run ops l0)) = nat C" for ops
    using limiter_run_bounded[OF le, of ops] l0 by simp
  have bound: "ch_len (tokens (limiter_run ops l0)) \<le> nat C" for ops
    using limiter_run_bounded[OF le, of ops] cap[of ops] by simp
  have tick: "ch_len (tokens (refillTokens (limiter_run ops l0))) =
                  (if ch_len (tokens (limiter_run ops l0)) < nat C
                   then ch_len (tokens (limiter_run ops l0)) + 1
                   else ch_len (tokens (limiter_run ops l0)))" for ops
    by (simp add: refillTokens_len cap)
  have wait: "case Wait (limiter_run ops l0) of
                None \<Rightarrow> ch_len (tokens (limiter_run ops l0)) = 0
              | Some l' \<Rightarrow> ch_len (tokens l') + 1 = ch_len (tokens (limiter_run ops l0))" for ops
    by (simp add: Wait_len)
  show ?thesis using l0 bound tick wait by simp
qed

theorem limiter_reservoir_bounded_witness:
  "NewLimiter 3 = Returns \<lparr>rate = 3, tokens = \<lparr>ch_cap = 3, ch_len = 3\<rparr>, ticker = 20000000000\<rparr>
   \<and> ch_len (tokens (limiter_run [Tick, Acquire, Acquire, Tick, Tick, Tick]
        \<lparr>rate = 3, tokens = \<lparr>ch_cap = 3, ch_len = 3\<rparr>, ticker = 20000000000\<rparr>)) \<le> 3"
proof -
  have n: "NewLimiter 3 = Returns \<lparr>rate = 3, tokens = \<lparr>ch_cap = 3, ch_len = 3\<rparr>, ticker = 20000000000\<rparr>"
    by (simp add: NewLimiter_Returns minute_ns_def)
  from limiter_reservoir_bounded[OF n]
  have "\<forall>ops. ch_len (tokens (limiter_run ops
          \<lparr>rate = 3, tokens = \<lparr>ch_cap = 3, ch_len = 3\<rparr>, ticker = 20000000000\<rparr>)) \<le> nat 3"
    by blast
  then have "ch_len (tokens (limiter_run [Tick, Acquire, Acquire, Tick, Tick, Tick]
        \<lparr>rate = 3, tokens = \<lparr>ch_cap = 3, ch_len = 3\<rparr>, ticker = 20000000000\<rparr>)) \<le> nat 3"
    by (rule spec)
  with n show ?thesis by simp
qed

lemma total_Nil [simp]: "total f [] = 0"
  by (simp add: total_def)

lemma total_snoc [simp]: "total f (ts @ [t]) = total f ts + f (snd t)"
  by (simp add: total_def)

lemma total_update:
  "j < length ts \<Longrightarrow> total f (ts[j := t]) = total f ts - f (snd (ts ! j)) + f (snd t)"
proof (induction ts arbitrary: j)
  case Nil
  then show ?case by simp
next
  case (Cons a ts)
  then show ?case by (cases j) (auto simp: total_def)
qed

lemma total_nonneg: "(\<And>pc. 0 \<le> f pc) \<Longrightarrow> 0 \<le> total f ts"
  by (induction ts) (auto simp: total_def)

lemma total_member_le:
  "(\<And>pc. 0 \<le> f pc) \<Longrightarrow> j < length ts \<Longrightarrow> f (snd (ts ! j)) \<le> total f ts"
proof (induction ts arbitrary: j)
  case Nil
  then show ?case by simp
next
  case (Cons a ts)
  have "0 \<le> total f ts" using Cons.prems(1) by (rule total_nonneg)
  moreover have "0 \<le> f (snd a)" using Cons.prems(1) .
  ultimately show ?case
  proof (cases j)
    case 0
    then show ?thesis using \<open>0 \<le> total f ts\<close> by (simp add: total_def)
  next
    case (Suc k)
    then have "f (snd (ts ! k)) \<le> total f ts" using Cons.IH[of k] Cons.prems by simp
    then show ?thesis using Suc \<open>0 \<le> f (snd a)\<close> by (simp add: total_def)
  qed
qed

lemma live_nonneg [simp]: "0 \<le> live pc"
  by (cases pc) auto

lemma holds_slot_nonneg [simp]: "0 \<le> holds_slot pc"
  by (cases pc) auto

lemma find_release_Some:
  "find_release ts = Some j \<Longrightarrow> j < length ts \<and> snd (ts ! j) = T_release"
proof (induction ts arbitrary: j)
  case Nil
  then show ?case by simp
next
  case (Cons t ts)
  obtain p pc where t: "t = (p, pc)" by (cases t)
  show ?case using Cons t by (cases pc) auto
qed

lemma init_Inv: "Inv P (init P)"
  by (simp add: Inv_def inv_ctrl_def inv_panic_def inv_wg_def inv_sem_def inv_wait_def inv_chan_def
      inv_sent_def inv_vals_def inv_out_def init_def registered_def)

lemma wg_Add_fields [simp]:
  "main_pc (wg_Add d s) = main_pc s" "loop_pc (wg_Add d s) = loop_pc s"
  "wait_pc (wg_Add d s) = wait_pc s" "tasks (wg_Add d s) = tasks s" "sem (wg_Add d s) = sem s"
  "results (wg_Add d s) = results s" "results_cap (wg_Add d s) = results_cap s"
  "closed (wg_Add d s) = closed s" "stdout (wg_Add d s) = stdout s"
  "delivered (wg_Add d s) = delivered s" "received (wg_Add d s) = received s"
  "trace (wg_Add d s) = trace s" "limiter (wg_Add d s) = limiter s"
  by (simp_all add: wg_Add_def)

lemma wg_Add_ok: "0 \<le> wg s + d \<Longrightarrow> wg (wg_Add d s) = wg s + d \<and> panicked (wg_Add d s) = panicked s"
  by (simp add: wg_Add_def)

lemma loop_added_nonneg [simp]: "0 \<le> loop_added pc"
  by (cases pc) auto

lemma loop_holds_nonneg [simp]: "0 \<le> loop_holds pc"
  by (cases pc) auto

lemma wg_nonneg: "inv_wg s \<Longrightarrow> 0 \<le> wg s"
proof -
  assume "inv_wg s"
  then have "wg s = (if registered s \<and> loop_pc s \<noteq> L_exit then 1 else 0) + loop_added (loop_pc s)
            + total live (tasks s)" by (simp add: inv_wg_def)
  moreover have "0 \<le> total live (tasks s)" by (rule total_nonneg) simp
  moreover have "0 \<le> loop_added (loop_pc s)" by simp
  ultimately show ?thesis by simp
qed

lemma step_main_cases:
  assumes "step_main P s = Some s'"
  obtains
    (usage) "main_pc s = M_start" "prog_args P = []"
      "s' = s\<lparr>stdout := stdout s @ [Line usage_text], main_pc := M_usage, trace := trace s @ [EvUsage]\<rparr>"
  | (panic) "main_pc s = M_start" "prog_args P \<noteq> []" "prog_maxConcurrent P < 0"
      "s' = s\<lparr>panicked := Some PanicMakechan\<rparr>"
  | (make) "main_pc s = M_start" "prog_args P \<noteq> []" "0 \<le> prog_maxConcurrent P"
      "s' = s\<lparr>sem := \<lparr>ch_cap = nat (prog_maxConcurrent P), ch_len = 0\<rparr>,
               results_cap := length (prog_args P), main_pc := M_add\<rparr>"
  | (add) "main_pc s = M_add"
      "s' = (wg_Add 1 s)\<lparr>main_pc := M_go_loop, trace := trace s @ [EvRegisterLoop]\<rparr>"
  | (go_loop) "main_pc s = M_go_loop"
      "s' = s\<lparr>loop_pc := L_next (prog_args P), main_pc := M_go_waiter, trace := trace s @ [EvStartLoop]\<rparr>"
  | (go_waiter) "main_pc s = M_go_waiter"
      "s' = s\<lparr>wait_pc := W_wait, main_pc := M_range, trace := trace s @ [EvStartWaiter]\<rparr>"
  | (recv) result rest where "main_pc s = M_range" "results s = result # rest"
      "s' = s\<lparr>results := rest, received := received s @ [result],
               stdout := stdout s @ [Record (marshal_Result (prog_marshal P) (output_result result))]\<rparr>"
  | (completed) "main_pc s = M_range" "results s = []" "closed s"
      "s' = s\<lparr>main_pc := M_returned, trace := trace s @ [EvCompleted]\<rparr>"
  using assms
  by (cases "main_pc s")
     (auto simp: step_main_def make_chan_def split: if_splits list.splits)

lemma step_loop_cases:
  assumes "step_loop s = Some s'"
  obtains
    (exit) "loop_pc s = L_next []"
      "s' = (wg_Add (- 1) s)\<lparr>loop_pc := L_exit, trace := trace s @ [EvRetireLoop]\<rparr>"
  | (unlimited) path rest where "loop_pc s = L_next (path # rest)" "limiter s = None"
      "s' = s\<lparr>loop_pc := L_sem path rest\<rparr>"
  | (token) path rest l l' where "loop_pc s = L_next (path # rest)" "limiter s = Some l"
      "Wait l = Some l'"
      "s' = s\<lparr>limiter := Some l', loop_pc := L_sem path rest,
               trace := trace s @ [EvToken (length (tasks s))]\<rparr>"
  | (slot) path rest where "loop_pc s = L_sem path rest" "ch_len (sem s) < ch_cap (sem s)"
      "s' = s\<lparr>sem := (sem s)\<lparr>ch_len := ch_len (sem s) + 1\<rparr>, loop_pc := L_add path rest,
               trace := trace s @ [EvSlot (length (tasks s))]\<rparr>"
  | (handover) path rest j where "loop_pc s = L_sem path rest" "ch_cap (sem s) = 0"
      "find_release (tasks s) = Some j"
      "s' = s\<lparr>tasks := (tasks s)[j := (fst (tasks s ! j), T_done)], loop_pc := L_add path rest,
               trace := trace s @ [EvSlot (length (tasks s)), EvRelease j]\<rparr>"
  | (add) path rest where "loop_pc s = L_add path rest"
      "s' = (wg_Add 1 s)\<lparr>loop_pc := L_go path rest, trace := trace s @ [EvRegister (length (tasks s))]\<rparr>"
  | (go) path rest where "loop_pc s = L_go path rest"
      "s' = s\<lparr>tasks := tasks s @ [(path, T_run)], loop_pc := L_next rest,
               trace := trace s @ [EvSpawn (length (tasks s))]\<rparr>"
  using assms
  by (cases "loop_pc s")
     (auto simp: step_loop_def ch_send_def split: if_splits list.splits option.splits)

lemma step_task_cases:
  assumes "step_task P j s = Some s'"
  obtains
    (process) path where "j < length (tasks s)" "tasks s ! j = (path, T_run)"
      "s' = s\<lparr>tasks := (tasks s)[j := (path, T_send (prog_process P path))],
               trace := trace s @ [EvProcess j]\<rparr>"
  | (send_closed) path result where "j < length (tasks s)" "tasks s ! j = (path, T_send result)"
      "closed s" "s' = s\<lparr>panicked := Some PanicClosedChannel\<rparr>"
  | (deliver) path result where "j < length (tasks s)" "tasks s ! j = (path, T_send result)"
      "\<not> closed s" "length (results s) < results_cap s"
      "s' = s\<lparr>results := results s @ [result], delivered := delivered s @ [(j, result)],
               tasks := (tasks s)[j := (path, T_release)], trace := trace s @ [EvDeliver j]\<rparr>"
  | (release) path where "j < length (tasks s)" "tasks s ! j = (path, T_release)"
      "0 < ch_len (sem s)"
      "s' = s\<lparr>sem := (sem s)\<lparr>ch_len := ch_len (sem s) - 1\<rparr>,
               tasks := (tasks s)[j := (path, T_done)], trace := trace s @ [EvRelease j]\<rparr>"
  | (retire) path where "j < length (tasks s)" "tasks s ! j = (path, T_done)"
      "s' = (wg_Add (- 1) s)\<lparr>tasks := (tasks s)[j := (path, T_exit)], trace := trace s @ [EvRetire j]\<rparr>"
proof (cases "j < length (tasks s)")
  case False
  then show ?thesis using assms by (simp add: step_task_def)
next
  case True
  obtain path pc where t: "tasks s ! j = (path, pc)" by (cases "tasks s ! j")
  show ?thesis
  proof (cases pc)
    case T_run
    then show ?thesis using assms True t process by (simp add: step_task_def)
  next
    case (T_send r)
    then show ?thesis using assms True t send_closed deliver
      by (cases "closed s") (auto simp: step_task_def split: if_splits)
  next
    case T_release
    then show ?thesis using assms True t release
      by (auto simp: step_task_def ch_recv_def split: if_splits)
  next
    case T_done
    then show ?thesis using assms True t retire by (simp add: step_task_def)
  next
    case T_exit
    then show ?thesis using assms True t by (simp add: step_task_def)
  qed
qed

lemma step_waiter_cases:
  assumes "step_waiter s = Some s'"
  obtains
    (returns) "wait_pc s = W_wait" "wg s = 0"
      "s' = s\<lparr>wait_pc := W_close, trace := trace s @ [EvWaitReturns]\<rparr>"
  | (close_closed) "wait_pc s = W_close" "closed s" "s' = s\<lparr>panicked := Some PanicClosedChannel\<rparr>"
  | (close) "wait_pc s = W_close" "\<not> closed s"
      "s' = s\<lparr>closed := True, wait_pc := W_exit, trace := trace s @ [EvClose]\<rparr>"
  using assms
  by (cases "wait_pc s") (auto simp: step_waiter_def split: if_splits)

lemma step_ticker_cases:
  assumes "step_ticker s = Some s'"
  obtains l where "limiter s = Some l" "s' = s\<lparr>limiter := Some (refillTokens l)\<rparr>"
  using assms by (auto simp: step_ticker_def split: option.splits)

lemma loop_idle_iff:
  "inv_ctrl P s \<Longrightarrow> (loop_pc s = L_idle) = (main_pc s \<in> {M_start, M_add, M_go_loop, M_usage})"
  by (cases "loop_pc s"; cases "main_pc s") (simp_all add: inv_ctrl_def)

lemma idle_nothing_delivered:
  assumes "inv_ctrl P s" "inv_sent s" "inv_chan s" "loop_pc s = L_idle"
  shows "delivered s = []" "received s = []" "results s = []"
proof -
  have "tasks s = []" using assms(1,4) by (simp add: inv_ctrl_def)
  then have "set (map fst (delivered s)) = {}" using assms(2) by (simp add: inv_sent_def)
  then show "delivered s = []" by simp
  then have "received s @ results s = []" using assms(3) by (simp add: inv_chan_def)
  then show "received s = []" "results s = []" by simp_all
qed

lemma drop_eq_Cons:
  assumes "drop n xs = p # r"
  shows "n < length xs" "xs ! n = p" "drop (Suc n) xs = r" "take (Suc n) xs = take n xs @ [p]"
proof -
  show n: "n < length xs" using assms by (cases "n < length xs") auto
  from Cons_nth_drop_Suc[OF n] assms show "xs ! n = p" "drop (Suc n) xs = r" by simp_all
  then show "take (Suc n) xs = take n xs @ [p]" using n by (simp add: take_Suc_conv_app_nth)
qed

lemma Inv_main:
  assumes I: "Inv P s" and st: "step_main P s = Some s'" and np: "panicked s = None"
  shows "Inv P s'"
proof -
  from I have c: "inv_ctrl P s" and p: "inv_panic P s" and w: "inv_wg s" and m: "inv_sem s"
    and a: "inv_wait s" and h: "inv_chan s" and t: "inv_sent s" and v: "inv_vals P s"
    and o: "inv_out P s"
    by (simp_all add: Inv_def)
  from st show ?thesis
  proof (cases rule: step_main_cases)
    case usage
    note f = usage
    have l: "loop_pc s = L_idle" using c f(1) by (simp add: loop_idle_iff)
    have e: "stdout s = []" using o idle_nothing_delivered(2)[OF c t h l] f(1) by (simp add: inv_out_def)
    have "inv_ctrl P s'" using c f l by (simp add: inv_ctrl_def)
    moreover have "inv_panic P s'" using np f by (simp add: inv_panic_def)
    moreover have "inv_wg s'" using w f l by (simp add: inv_wg_def registered_def)
    moreover have "inv_sem s'" using m f l by (simp add: inv_sem_def)
    moreover have "inv_wait s'" using a f  by (simp add: inv_wait_def registered_def)
    moreover have "inv_chan s'" using h f  by (simp add: inv_chan_def registered_def)
    moreover have "inv_sent s'" using t f  by (simp add: inv_sent_def registered_def)
    moreover have "inv_vals P s'" using v f  by (simp add: inv_vals_def registered_def)
    moreover have "inv_out P s'" using e f by (simp add: inv_out_def)
    ultimately show ?thesis by (simp add: Inv_def)
  next
    case panic
    note f = panic
    have l: "loop_pc s = L_idle" using c f(1) by (simp add: loop_idle_iff)
    have "inv_ctrl P s'" using c f l by (simp add: inv_ctrl_def)
    moreover have "inv_panic P s'" using f by (simp add: inv_panic_def)
    moreover have "inv_wg s'" using w f l by (simp add: inv_wg_def registered_def)
    moreover have "inv_sem s'" using m f  by (simp add: inv_sem_def registered_def)
    moreover have "inv_wait s'" using a f  by (simp add: inv_wait_def registered_def)
    moreover have "inv_chan s'" using h f  by (simp add: inv_chan_def registered_def)
    moreover have "inv_sent s'" using t f  by (simp add: inv_sent_def registered_def)
    moreover have "inv_vals P s'" using v f  by (simp add: inv_vals_def registered_def)
    moreover have "inv_out P s'" using o f  by (simp add: inv_out_def registered_def)
    ultimately show ?thesis by (simp add: Inv_def)
  next
    case make
    note f = make
    have l: "loop_pc s = L_idle" using c f(1) by (simp add: loop_idle_iff)
    have z: "sem s = \<lparr>ch_cap = 0, ch_len = 0\<rparr>" using c f(1) by (simp add: inv_ctrl_def)
    have wi: "wait_pc s = W_idle" using c f(1) by (simp add: inv_ctrl_def)
    have "inv_ctrl P s'" using c f l wi by (simp add: inv_ctrl_def)
    moreover have "inv_panic P s'" using np f by (simp add: inv_panic_def)
    moreover have "inv_wg s'" using w f l by (simp add: inv_wg_def registered_def)
    moreover have "inv_sem s'" using m f l z by (simp add: inv_sem_def)
    moreover have "inv_wait s'" using a f wi by (simp add: inv_wait_def)
    moreover have "inv_chan s'" using h f  by (simp add: inv_chan_def registered_def)
    moreover have "inv_sent s'" using t f  by (simp add: inv_sent_def registered_def)
    moreover have "inv_vals P s'" using v f  by (simp add: inv_vals_def registered_def)
    moreover have "inv_out P s'" using o f  by (simp add: inv_out_def registered_def)
    ultimately show ?thesis by (simp add: Inv_def)
  next
    case add
    note f = add
    have l: "loop_pc s = L_idle" using c f(1) by (simp add: loop_idle_iff)
    have wi: "wait_pc s = W_idle" using c f(1) by (simp add: inv_ctrl_def)
    have "wg_Add 1 s = s\<lparr>wg := wg s + 1\<rparr>" using wg_nonneg[OF w] by (simp add: wg_Add_def)
    note f = f(1) f(2)[unfolded this]
    have "inv_ctrl P s'" using c f l wi by (simp add: inv_ctrl_def)
    moreover have "inv_panic P s'" using np f by (simp add: inv_panic_def)
    moreover have "inv_wg s'" using w f l by (simp add: inv_wg_def registered_def)
    moreover have "inv_sem s'" using m f  by (simp add: inv_sem_def registered_def)
    moreover have "inv_wait s'" using a f wi by (simp add: inv_wait_def)
    moreover have "inv_chan s'" using h f  by (simp add: inv_chan_def registered_def)
    moreover have "inv_sent s'" using t f  by (simp add: inv_sent_def registered_def)
    moreover have "inv_vals P s'" using v f  by (simp add: inv_vals_def registered_def)
    moreover have "inv_out P s'" using o f  by (simp add: inv_out_def registered_def)
    ultimately show ?thesis by (simp add: Inv_def)
  next
    case go_loop
    note f = go_loop
    have l: "loop_pc s = L_idle" using c f(1) by (simp add: loop_idle_iff)
    have ts: "tasks s = []" using c l by (simp add: inv_ctrl_def)
    have wi: "wait_pc s = W_idle" using c f(1) by (simp add: inv_ctrl_def)
    have "inv_ctrl P s'" using c f l ts wi by (simp add: inv_ctrl_def)
    moreover have "inv_panic P s'" using np f by (simp add: inv_panic_def)
    moreover have "inv_wg s'" using w f l by (simp add: inv_wg_def registered_def)
    moreover have "inv_sem s'" using m f l by (simp add: inv_sem_def)
    moreover have "inv_wait s'" using a f wi by (simp add: inv_wait_def)
    moreover have "inv_chan s'" using h f  by (simp add: inv_chan_def registered_def)
    moreover have "inv_sent s'" using t f  by (simp add: inv_sent_def registered_def)
    moreover have "inv_vals P s'" using v f  by (simp add: inv_vals_def registered_def)
    moreover have "inv_out P s'" using o f  by (simp add: inv_out_def registered_def)
    ultimately show ?thesis by (simp add: Inv_def)
  next
    case go_waiter
    note f = go_waiter
    have wi: "wait_pc s = W_idle" using c f(1) by (simp add: inv_ctrl_def)
    have "inv_ctrl P s'" using c f by (cases "loop_pc s") (simp_all add: inv_ctrl_def)
    moreover have "inv_panic P s'" using np f by (simp add: inv_panic_def)
    moreover have "inv_wg s'" using w f  by (simp add: inv_wg_def registered_def)
    moreover have "inv_sem s'" using m f  by (simp add: inv_sem_def registered_def)
    moreover have "inv_wait s'" using a f wi by (simp add: inv_wait_def)
    moreover have "inv_chan s'" using h f  by (simp add: inv_chan_def registered_def)
    moreover have "inv_sent s'" using t f  by (simp add: inv_sent_def registered_def)
    moreover have "inv_vals P s'" using v f  by (simp add: inv_vals_def registered_def)
    moreover have "inv_out P s'" using o f  by (simp add: inv_out_def registered_def)
    ultimately show ?thesis by (simp add: Inv_def)
  next
    case (recv result rest)
    note f = recv
    have "inv_ctrl P s'" using c f by (cases "loop_pc s") (simp_all add: inv_ctrl_def)
    moreover have "inv_panic P s'" using np f by (simp add: inv_panic_def)
    moreover have "inv_wg s'" using w f  by (simp add: inv_wg_def registered_def)
    moreover have "inv_sem s'" using m f  by (simp add: inv_sem_def registered_def)
    moreover have "inv_wait s'" using a f  by (simp add: inv_wait_def registered_def)
    moreover have "inv_chan s'" using h f  by (simp add: inv_chan_def registered_def)
    moreover have "inv_sent s'" using t f  by (simp add: inv_sent_def registered_def)
    moreover have "inv_vals P s'" using v f  by (simp add: inv_vals_def registered_def)
    moreover have "inv_out P s'" using o f  by (simp add: inv_out_def registered_def)
    ultimately show ?thesis by (simp add: Inv_def)
  next
    case completed
    note f = completed
    have "inv_ctrl P s'" using c f by (cases "loop_pc s") (simp_all add: inv_ctrl_def)
    moreover have "inv_panic P s'" using np f by (simp add: inv_panic_def)
    moreover have "inv_wg s'" using w f  by (simp add: inv_wg_def registered_def)
    moreover have "inv_sem s'" using m f  by (simp add: inv_sem_def registered_def)
    moreover have "inv_wait s'" using a f  by (simp add: inv_wait_def registered_def)
    moreover have "inv_chan s'" using h f  by (simp add: inv_chan_def registered_def)
    moreover have "inv_sent s'" using t f  by (simp add: inv_sent_def registered_def)
    moreover have "inv_vals P s'" using v f  by (simp add: inv_vals_def registered_def)
    moreover have "inv_out P s'" using o f  by (simp add: inv_out_def registered_def)
    ultimately show ?thesis by (simp add: Inv_def)
  qed
qed

lemma Inv_loop:
  assumes I: "Inv P s" and st: "step_loop s = Some s'" and np: "panicked s = None"
    and alive: "main_pc s \<noteq> M_returned"
  shows "Inv P s'"
proof -
  from I have c: "inv_ctrl P s" and p: "inv_panic P s" and w: "inv_wg s" and m: "inv_sem s"
    and a: "inv_wait s" and h: "inv_chan s" and t: "inv_sent s" and v: "inv_vals P s"
    and o: "inv_out P s"
    by (simp_all add: Inv_def)
  from st show ?thesis
  proof (cases rule: step_loop_cases)
    case exit
    note f = exit
    have mp: "main_pc s = M_go_waiter \<or> main_pc s = M_range" using c f(1) alive by (cases "main_pc s") (simp_all add: inv_ctrl_def)
    have r: "registered s" using mp by (auto simp: registered_def)
    have "1 \<le> wg s" using w f(1) r total_nonneg[of live "tasks s"] by (simp add: inv_wg_def)
    then have "wg_Add (- 1) s = s\<lparr>wg := wg s - 1\<rparr>" by (simp add: wg_Add_def)
    note f = f(1) f(2)[unfolded this]
    have full: "length (tasks s) = length (prog_args P)" using c f(1) by (simp add: inv_ctrl_def)
    have "inv_ctrl P s'" using c f mp full by (cases "main_pc s") (simp_all add: inv_ctrl_def)
    moreover have "inv_panic P s'" using np f by (simp add: inv_panic_def)
    moreover have "inv_wg s'" using w f r by (simp add: inv_wg_def registered_def)
    moreover have "inv_sem s'" using m f alive by (simp add: inv_sem_def registered_def)
    moreover have "inv_wait s'" using a f alive by (simp add: inv_wait_def)
    moreover have "inv_chan s'" using h f alive by (simp add: inv_chan_def registered_def)
    moreover have "inv_sent s'" using t f alive by (simp add: inv_sent_def registered_def)
    moreover have "inv_vals P s'" using v f alive by (simp add: inv_vals_def registered_def)
    moreover have "inv_out P s'" using o f alive by (simp add: inv_out_def registered_def)
    ultimately show ?thesis by (simp add: Inv_def)
  next
    case (unlimited path rest)
    note f = unlimited
    have mp: "main_pc s = M_go_waiter \<or> main_pc s = M_range" using c f(1) alive by (cases "main_pc s") (simp_all add: inv_ctrl_def)
    have r: "registered s" using mp by (auto simp: registered_def)
    have "inv_ctrl P s'" using c f mp by (cases "main_pc s") (simp_all add: inv_ctrl_def)
    moreover have "inv_panic P s'" using np f by (simp add: inv_panic_def)
    moreover have "inv_wg s'" using w f r by (simp add: inv_wg_def registered_def)
    moreover have "inv_sem s'" using m f alive by (simp add: inv_sem_def registered_def)
    moreover have "inv_wait s'" using a f alive by (simp add: inv_wait_def)
    moreover have "inv_chan s'" using h f alive by (simp add: inv_chan_def registered_def)
    moreover have "inv_sent s'" using t f alive by (simp add: inv_sent_def registered_def)
    moreover have "inv_vals P s'" using v f alive by (simp add: inv_vals_def registered_def)
    moreover have "inv_out P s'" using o f alive by (simp add: inv_out_def registered_def)
    ultimately show ?thesis by (simp add: Inv_def)
  next
    case (token path rest l l')
    note f = token
    have mp: "main_pc s = M_go_waiter \<or> main_pc s = M_range" using c f(1) alive by (cases "main_pc s") (simp_all add: inv_ctrl_def)
    have r: "registered s" using mp by (auto simp: registered_def)
    have "inv_ctrl P s'" using c f mp by (cases "main_pc s") (simp_all add: inv_ctrl_def)
    moreover have "inv_panic P s'" using np f by (simp add: inv_panic_def)
    moreover have "inv_wg s'" using w f r by (simp add: inv_wg_def registered_def)
    moreover have "inv_sem s'" using m f alive by (simp add: inv_sem_def registered_def)
    moreover have "inv_wait s'" using a f alive by (simp add: inv_wait_def)
    moreover have "inv_chan s'" using h f alive by (simp add: inv_chan_def registered_def)
    moreover have "inv_sent s'" using t f alive by (simp add: inv_sent_def registered_def)
    moreover have "inv_vals P s'" using v f alive by (simp add: inv_vals_def registered_def)
    moreover have "inv_out P s'" using o f alive by (simp add: inv_out_def registered_def)
    ultimately show ?thesis by (simp add: Inv_def)
  next
    case (slot path rest)
    note f = slot
    have mp: "main_pc s = M_go_waiter \<or> main_pc s = M_range" using c f(1) alive by (cases "main_pc s") (simp_all add: inv_ctrl_def)
    have r: "registered s" using mp by (auto simp: registered_def)
    have "inv_ctrl P s'" using c f mp by (cases "main_pc s") (simp_all add: inv_ctrl_def)
    moreover have "inv_panic P s'" using np f by (simp add: inv_panic_def)
    moreover have "inv_wg s'" using w f r by (simp add: inv_wg_def registered_def)
    moreover have "inv_sem s'" using m f by (simp add: inv_sem_def)
    moreover have "inv_wait s'" using a f alive by (simp add: inv_wait_def)
    moreover have "inv_chan s'" using h f alive by (simp add: inv_chan_def registered_def)
    moreover have "inv_sent s'" using t f alive by (simp add: inv_sent_def registered_def)
    moreover have "inv_vals P s'" using v f alive by (simp add: inv_vals_def registered_def)
    moreover have "inv_out P s'" using o f alive by (simp add: inv_out_def registered_def)
    ultimately show ?thesis by (simp add: Inv_def)
  next
    case (handover path rest j)
    note f = handover
    have mp: "main_pc s = M_go_waiter \<or> main_pc s = M_range" using c f(1) alive by (cases "main_pc s") (simp_all add: inv_ctrl_def)
    have r: "registered s" using mp by (auto simp: registered_def)
    have j: "j < length (tasks s)" "snd (tasks s ! j) = T_release" using find_release_Some[OF f(3)] by simp_all
    have tl: "total live ((tasks s)[j := (fst (tasks s ! j), T_done)]) = total live (tasks s)" using j by (simp add: total_update)
    have th: "total holds_slot ((tasks s)[j := (fst (tasks s ! j), T_done)]) = total holds_slot (tasks s) - 1" using j by (simp add: total_update)
    have mf: "map fst ((tasks s)[j := (fst (tasks s ! j), T_done)]) = map fst (tasks s)" using j by (simp add: map_update list_update_same_conv)
    have "inv_ctrl P s'" using c f mp mf by (cases "main_pc s") (simp_all add: inv_ctrl_def)
    moreover have "inv_panic P s'" using np f by (simp add: inv_panic_def)
    moreover have "inv_wg s'" using w f r tl by (simp add: inv_wg_def registered_def)
    moreover have "inv_sem s'" using m f th by (simp add: inv_sem_def)
    moreover have "inv_wait s'" using a f tl alive by (simp add: inv_wait_def)
    moreover have "inv_chan s'" using h f alive by (simp add: inv_chan_def registered_def)
    moreover have "inv_sent s'" using t f j by (auto simp: inv_sent_def nth_list_update)
    moreover have "inv_vals P s'" using v f j by (auto simp: inv_vals_def nth_list_update)
    moreover have "inv_out P s'" using o f alive by (simp add: inv_out_def registered_def)
    ultimately show ?thesis by (simp add: Inv_def)
  next
    case (add path rest)
    note f = add
    have mp: "main_pc s = M_go_waiter \<or> main_pc s = M_range" using c f(1) alive by (cases "main_pc s") (simp_all add: inv_ctrl_def)
    have r: "registered s" using mp by (auto simp: registered_def)
    have "wg_Add 1 s = s\<lparr>wg := wg s + 1\<rparr>" using wg_nonneg[OF w] by (simp add: wg_Add_def)
    note f = f(1) f(2)[unfolded this]
    have "inv_ctrl P s'" using c f mp by (cases "main_pc s") (simp_all add: inv_ctrl_def)
    moreover have "inv_panic P s'" using np f by (simp add: inv_panic_def)
    moreover have "inv_wg s'" using w f r by (simp add: inv_wg_def registered_def)
    moreover have "inv_sem s'" using m f by (simp add: inv_sem_def)
    moreover have "inv_wait s'" using a f alive by (simp add: inv_wait_def)
    moreover have "inv_chan s'" using h f alive by (simp add: inv_chan_def registered_def)
    moreover have "inv_sent s'" using t f alive by (simp add: inv_sent_def registered_def)
    moreover have "inv_vals P s'" using v f alive by (simp add: inv_vals_def registered_def)
    moreover have "inv_out P s'" using o f alive by (simp add: inv_out_def registered_def)
    ultimately show ?thesis by (simp add: Inv_def)
  next
    case (go path rest)
    note f = go
    have mp: "main_pc s = M_go_waiter \<or> main_pc s = M_range" using c f(1) alive by (cases "main_pc s") (simp_all add: inv_ctrl_def)
    have r: "registered s" using mp by (auto simp: registered_def)
    have dr: "drop (length (tasks s)) (prog_args P) = path # rest" using c f(1) by (simp add: inv_ctrl_def)
    note dc = drop_eq_Cons[OF dr]
    have "inv_ctrl P s'" using c f mp dc by (cases "main_pc s") (simp_all add: inv_ctrl_def)
    moreover have "inv_panic P s'" using np f by (simp add: inv_panic_def)
    moreover have "inv_wg s'" using w f r by (simp add: inv_wg_def registered_def)
    moreover have "inv_sem s'" using m f by (simp add: inv_sem_def)
    moreover have "inv_wait s'" using a f alive by (simp add: inv_wait_def)
    moreover have "inv_chan s'" using h f alive by (simp add: inv_chan_def registered_def)
    moreover have "inv_sent s'" using t f by (auto simp: inv_sent_def nth_append less_Suc_eq)
    moreover have "inv_vals P s'" using v f by (auto simp: inv_vals_def nth_append less_Suc_eq)
    moreover have "inv_out P s'" using o f alive by (simp add: inv_out_def registered_def)
    ultimately show ?thesis by (simp add: Inv_def)
  qed
qed

lemma Inv_task:
  assumes I: "Inv P s" and st: "step_task P j s = Some s'" and np: "panicked s = None"
    and alive: "main_pc s \<noteq> M_returned"
  shows "Inv P s'"
proof -
  from I have c: "inv_ctrl P s" and p: "inv_panic P s" and w: "inv_wg s" and m: "inv_sem s"
    and a: "inv_wait s" and h: "inv_chan s" and t: "inv_sent s" and v: "inv_vals P s"
    and o: "inv_out P s"
    by (simp_all add: Inv_def)
  from st show ?thesis
  proof (cases rule: step_task_cases)
    case (process path)
    note f = process
    have sj: "snd (tasks s ! j) = snd (tasks s ! j)" "fst (tasks s ! j) = path" using f(2) by simp_all
    have ne: "tasks s \<noteq> []" using f(1) by auto
    have mp: "main_pc s = M_go_waiter \<or> main_pc s = M_range" using c ne alive by (cases "main_pc s"; cases "loop_pc s") (simp_all add: inv_ctrl_def)
    have r: "registered s" using mp by (auto simp: registered_def)
    have mf: "map fst ((tasks s)[j := (path, T_send (prog_process P path))]) = map fst (tasks s)" using f(1,2) by (simp add: map_update list_update_same_conv)
    have tl: "total live ((tasks s)[j := (path, T_send (prog_process P path))]) = total live (tasks s) - live (snd (tasks s ! j)) + live (T_send (prog_process P path) :: 'a task_pc)" using f(1) by (simp add: total_update)
    have th: "total holds_slot ((tasks s)[j := (path, T_send (prog_process P path))]) = total holds_slot (tasks s) - holds_slot (snd (tasks s ! j)) + holds_slot (T_send (prog_process P path) :: 'a task_pc)" using f(1) by (simp add: total_update)
    have lj: "live (snd (tasks s ! j)) \<le> total live (tasks s)" using f(1) by (intro total_member_le) simp_all
    have "inv_ctrl P s'" using c f mp mf by (cases "main_pc s"; cases "loop_pc s") (simp_all add: inv_ctrl_def)
    moreover have "inv_panic P s'" using np f by (simp add: inv_panic_def)
    moreover have "inv_wg s'" using w f r tl by (simp add: inv_wg_def registered_def)
    moreover have "inv_sem s'" using m f th by (simp add: inv_sem_def)
    moreover have "inv_wait s'" using a f tl alive by (simp add: inv_wait_def)
    moreover have "inv_chan s'" using h f alive by (simp add: inv_chan_def registered_def)
    moreover have "inv_sent s'" using t f by (auto simp: inv_sent_def nth_list_update)
    moreover have "inv_vals P s'" using v f by (auto simp: inv_vals_def nth_list_update)
    moreover have "inv_out P s'" using o f alive by (simp add: inv_out_def registered_def)
    ultimately show ?thesis by (simp add: Inv_def)
  next
    case (send_closed path result)
    note f = send_closed
    have "live (snd (tasks s ! j)) \<le> total live (tasks s)" using f(1) by (intro total_member_le) simp_all
    moreover have "total live (tasks s) = 0" using a f(3) by (simp add: inv_wait_def)
    ultimately have False using f(2) by simp
    then show ?thesis ..
  next
    case (deliver path result)
    note f = deliver
    have sj: "snd (tasks s ! j) = snd (tasks s ! j)" "fst (tasks s ! j) = path" using f(2) by simp_all
    have ne: "tasks s \<noteq> []" using f(1) by auto
    have mp: "main_pc s = M_go_waiter \<or> main_pc s = M_range" using c ne alive by (cases "main_pc s"; cases "loop_pc s") (simp_all add: inv_ctrl_def)
    have r: "registered s" using mp by (auto simp: registered_def)
    have mf: "map fst ((tasks s)[j := (path, T_release)]) = map fst (tasks s)" using f(1,2) by (simp add: map_update list_update_same_conv)
    have tl: "total live ((tasks s)[j := (path, T_release)]) = total live (tasks s) - live (snd (tasks s ! j)) + live (T_release :: 'a task_pc)" using f(1) by (simp add: total_update)
    have th: "total holds_slot ((tasks s)[j := (path, T_release)]) = total holds_slot (tasks s) - holds_slot (snd (tasks s ! j)) + holds_slot (T_release :: 'a task_pc)" using f(1) by (simp add: total_update)
    have lj: "live (snd (tasks s ! j)) \<le> total live (tasks s)" using f(1) by (intro total_member_le) simp_all
    have aj: "prog_args P ! j = path" using c f(1,2) nth_map[of j "tasks s" fst] by (simp add: inv_ctrl_def)
    have "inv_ctrl P s'" using c f mp mf by (cases "main_pc s"; cases "loop_pc s") (simp_all add: inv_ctrl_def)
    moreover have "inv_panic P s'" using np f by (simp add: inv_panic_def)
    moreover have "inv_wg s'" using w f r tl by (simp add: inv_wg_def registered_def)
    moreover have "inv_sem s'" using m f th by (simp add: inv_sem_def)
    moreover have "inv_wait s'" using a f tl alive by (simp add: inv_wait_def)
    moreover have "inv_chan s'" using h f by (simp add: inv_chan_def)
    moreover have "inv_sent s'" using t f by (auto simp: inv_sent_def nth_list_update)
    moreover have "inv_vals P s'" using v f aj by (auto simp: inv_vals_def nth_list_update)
    moreover have "inv_out P s'" using o f alive by (simp add: inv_out_def registered_def)
    ultimately show ?thesis by (simp add: Inv_def)
  next
    case (release path)
    note f = release
    have sj: "snd (tasks s ! j) = snd (tasks s ! j)" "fst (tasks s ! j) = path" using f(2) by simp_all
    have ne: "tasks s \<noteq> []" using f(1) by auto
    have mp: "main_pc s = M_go_waiter \<or> main_pc s = M_range" using c ne alive by (cases "main_pc s"; cases "loop_pc s") (simp_all add: inv_ctrl_def)
    have r: "registered s" using mp by (auto simp: registered_def)
    have mf: "map fst ((tasks s)[j := (path, T_done)]) = map fst (tasks s)" using f(1,2) by (simp add: map_update list_update_same_conv)
    have tl: "total live ((tasks s)[j := (path, T_done)]) = total live (tasks s) - live (snd (tasks s ! j)) + live (T_done :: 'a task_pc)" using f(1) by (simp add: total_update)
    have th: "total holds_slot ((tasks s)[j := (path, T_done)]) = total holds_slot (tasks s) - holds_slot (snd (tasks s ! j)) + holds_slot (T_done :: 'a task_pc)" using f(1) by (simp add: total_update)
    have lj: "live (snd (tasks s ! j)) \<le> total live (tasks s)" using f(1) by (intro total_member_le) simp_all
    have "inv_ctrl P s'" using c f mp mf by (cases "main_pc s"; cases "loop_pc s") (simp_all add: inv_ctrl_def)
    moreover have "inv_panic P s'" using np f by (simp add: inv_panic_def)
    moreover have "inv_wg s'" using w f r tl by (simp add: inv_wg_def registered_def)
    moreover have "inv_sem s'" using m f th by (auto simp: inv_sem_def)
    moreover have "inv_wait s'" using a f tl alive by (simp add: inv_wait_def)
    moreover have "inv_chan s'" using h f alive by (simp add: inv_chan_def registered_def)
    moreover have "inv_sent s'" using t f by (auto simp: inv_sent_def nth_list_update)
    moreover have "inv_vals P s'" using v f by (auto simp: inv_vals_def nth_list_update)
    moreover have "inv_out P s'" using o f alive by (simp add: inv_out_def registered_def)
    ultimately show ?thesis by (simp add: Inv_def)
  next
    case (retire path)
    note f = retire
    have sj: "snd (tasks s ! j) = snd (tasks s ! j)" "fst (tasks s ! j) = path" using f(2) by simp_all
    have ne: "tasks s \<noteq> []" using f(1) by auto
    have mp: "main_pc s = M_go_waiter \<or> main_pc s = M_range" using c ne alive by (cases "main_pc s"; cases "loop_pc s") (simp_all add: inv_ctrl_def)
    have r: "registered s" using mp by (auto simp: registered_def)
    have mf: "map fst ((tasks s)[j := (path, T_exit)]) = map fst (tasks s)" using f(1,2) by (simp add: map_update list_update_same_conv)
    have tl: "total live ((tasks s)[j := (path, T_exit)]) = total live (tasks s) - live (snd (tasks s ! j)) + live (T_exit :: 'a task_pc)" using f(1) by (simp add: total_update)
    have th: "total holds_slot ((tasks s)[j := (path, T_exit)]) = total holds_slot (tasks s) - holds_slot (snd (tasks s ! j)) + holds_slot (T_exit :: 'a task_pc)" using f(1) by (simp add: total_update)
    have lj: "live (snd (tasks s ! j)) \<le> total live (tasks s)" using f(1) by (intro total_member_le) simp_all
    have la: "0 \<le> loop_added (loop_pc s)" by simp
    have l1: "1 \<le> total live (tasks s)" using lj f(2) by simp
    have "loop_added (loop_pc s) + total live (tasks s) \<le> wg s" using w by (simp add: inv_wg_def)
    then have "1 \<le> wg s" using la l1 by linarith
    then have "wg_Add (- 1) s = s\<lparr>wg := wg s - 1\<rparr>" by (simp add: wg_Add_def)
    note f = f(1) f(2) f(3)[unfolded this]
    have "inv_ctrl P s'" using c f mp mf by (cases "main_pc s"; cases "loop_pc s") (simp_all add: inv_ctrl_def)
    moreover have "inv_panic P s'" using np f by (simp add: inv_panic_def)
    moreover have "inv_wg s'" using w f r tl by (simp add: inv_wg_def registered_def)
    moreover have "inv_sem s'" using m f th by (simp add: inv_sem_def)
    moreover have "inv_wait s'" using a f tl alive l1 by (auto simp: inv_wait_def)
    moreover have "inv_chan s'" using h f alive by (simp add: inv_chan_def registered_def)
    moreover have "inv_sent s'" using t f by (auto simp: inv_sent_def nth_list_update)
    moreover have "inv_vals P s'" using v f by (auto simp: inv_vals_def nth_list_update)
    moreover have "inv_out P s'" using o f alive by (simp add: inv_out_def registered_def)
    ultimately show ?thesis by (simp add: Inv_def)
  qed
qed

lemma Inv_waiter:
  assumes I: "Inv P s" and st: "step_waiter s = Some s'" and np: "panicked s = None"
    and alive: "main_pc s \<noteq> M_returned"
  shows "Inv P s'"
proof -
  from I have c: "inv_ctrl P s" and p: "inv_panic P s" and w: "inv_wg s" and m: "inv_sem s"
    and a: "inv_wait s" and h: "inv_chan s" and t: "inv_sent s" and v: "inv_vals P s"
    and o: "inv_out P s"
    by (simp_all add: Inv_def)
  from st show ?thesis
  proof (cases rule: step_waiter_cases)
    case returns
    note f = returns
    have mp: "main_pc s = M_range" using c f(1) alive by (cases "main_pc s") (simp_all add: inv_ctrl_def)
    have r: "registered s" using mp by (auto simp: registered_def)
    have la: "0 \<le> loop_added (loop_pc s)" by simp
    have tl: "0 \<le> total live (tasks s)" by (rule total_nonneg) simp
    have e: "(if registered s \<and> loop_pc s \<noteq> L_exit then 1 else 0) + loop_added (loop_pc s) + total live (tasks s) = 0" using w f(2) by (simp add: inv_wg_def)
    have le: "loop_pc s = L_exit" using e la tl r by (cases "loop_pc s = L_exit") simp_all
    have t0: "total live (tasks s) = 0" using e la tl le by simp
    have "inv_ctrl P s'" using c f mp by (cases "loop_pc s") (simp_all add: inv_ctrl_def)
    moreover have "inv_panic P s'" using np f by (simp add: inv_panic_def)
    moreover have "inv_wg s'" using w f r by (simp add: inv_wg_def registered_def)
    moreover have "inv_sem s'" using m f alive by (simp add: inv_sem_def registered_def)
    moreover have "inv_wait s'" using a f le t0 alive by (simp add: inv_wait_def)
    moreover have "inv_chan s'" using h f alive by (simp add: inv_chan_def registered_def)
    moreover have "inv_sent s'" using t f alive by (simp add: inv_sent_def registered_def)
    moreover have "inv_vals P s'" using v f alive by (simp add: inv_vals_def registered_def)
    moreover have "inv_out P s'" using o f alive by (simp add: inv_out_def registered_def)
    ultimately show ?thesis by (simp add: Inv_def)
  next
    case close_closed
    then have False using a by (simp add: inv_wait_def)
    then show ?thesis ..
  next
    case close
    note f = close
    have mp: "main_pc s = M_range" using c f(1) alive by (cases "main_pc s") (simp_all add: inv_ctrl_def)
    have r: "registered s" using mp by (auto simp: registered_def)
    have "inv_ctrl P s'" using c f mp by (cases "loop_pc s") (simp_all add: inv_ctrl_def)
    moreover have "inv_panic P s'" using np f by (simp add: inv_panic_def)
    moreover have "inv_wg s'" using w f r by (simp add: inv_wg_def registered_def)
    moreover have "inv_sem s'" using m f alive by (simp add: inv_sem_def registered_def)
    moreover have "inv_wait s'" using a f alive by (simp add: inv_wait_def)
    moreover have "inv_chan s'" using h f alive by (simp add: inv_chan_def registered_def)
    moreover have "inv_sent s'" using t f alive by (simp add: inv_sent_def registered_def)
    moreover have "inv_vals P s'" using v f alive by (simp add: inv_vals_def registered_def)
    moreover have "inv_out P s'" using o f alive by (simp add: inv_out_def registered_def)
    ultimately show ?thesis by (simp add: Inv_def)
  qed
qed

lemma Inv_ticker:
  assumes I: "Inv P s" and st: "step_ticker s = Some s'" and np: "panicked s = None"
    and alive: "main_pc s \<noteq> M_returned"
  shows "Inv P s'"
proof -
  from I have c: "inv_ctrl P s" and p: "inv_panic P s" and w: "inv_wg s" and m: "inv_sem s"
    and a: "inv_wait s" and h: "inv_chan s" and t: "inv_sent s" and v: "inv_vals P s"
    and o: "inv_out P s"
    by (simp_all add: Inv_def)
  from st obtain l where f: "limiter s = Some l" "s' = s\<lparr>limiter := Some (refillTokens l)\<rparr>"
    by (rule step_ticker_cases)
  have "inv_ctrl P s'" using c f by (cases "loop_pc s") (simp_all add: inv_ctrl_def)
  moreover have "inv_panic P s'" using p f by (simp add: inv_panic_def)
  moreover have "inv_wg s'" using w f by (simp add: inv_wg_def registered_def)
  moreover have "inv_sem s'" using m f by (simp add: inv_sem_def)
  moreover have "inv_wait s'" using a f alive by (simp add: inv_wait_def)
  moreover have "inv_chan s'" using h f by (simp add: inv_chan_def)
  moreover have "inv_sent s'" using t f by (simp add: inv_sent_def)
  moreover have "inv_vals P s'" using v f by (simp add: inv_vals_def)
  moreover have "inv_out P s'" using o f by (simp add: inv_out_def)
  ultimately show ?thesis by (simp add: Inv_def)
qed

lemma Inv_step:
  assumes "Inv P s" "step P a s = Some s'"
  shows "Inv P s'"
proof -
  from assms(2) have alive: "main_pc s \<noteq> M_usage" "main_pc s \<noteq> M_returned" "panicked s = None"
    by (auto simp: step_def split: if_splits)
  show ?thesis
  proof (cases a)
    case Main
    then show ?thesis using assms alive by (auto simp: step_def intro: Inv_main)
  next
    case Loop
    then show ?thesis using assms alive by (auto simp: step_def intro: Inv_loop)
  next
    case Waiter
    then show ?thesis using assms alive by (auto simp: step_def intro: Inv_waiter)
  next
    case (Task j)
    then show ?thesis using assms alive by (auto simp: step_def intro: Inv_task)
  next
    case Ticker
    then show ?thesis using assms alive by (auto simp: step_def intro: Inv_ticker)
  qed
qed

lemma run_induct:
  assumes "Q s" and "\<And>s a s'. Q s \<Longrightarrow> step P a s = Some s' \<Longrightarrow> Q s'"
  shows "Q (run P sched s)"
  using assms(1)
proof (induction sched arbitrary: s)
  case Nil
  then show ?case by simp
next
  case (Cons a sched)
  show ?case
  proof (cases "step P a s")
    case None
    then show ?thesis using Cons by simp
  next
    case (Some s')
    then have "Q s'" using assms(2) Cons.prems by blast
    then show ?thesis using Some Cons.IH by simp
  qed
qed

lemma Inv_run: "Inv P (run P sched (init P))"
  by (rule run_induct[where Q = "Inv P"]) (auto intro: init_Inv Inv_step)

lemma precedes_append:
  assumes "precedes a b tr" and "b \<in> set evs \<Longrightarrow> b \<notin> set tr \<Longrightarrow> a \<in> set tr"
  shows "precedes a b (tr @ evs)"
proof (cases "b \<in> set tr")
  case True
  then have "takeWhile (\<lambda>e. e \<noteq> b) (tr @ evs) = takeWhile (\<lambda>e. e \<noteq> b) tr"
    by (intro takeWhile_append1[where x = b]) auto
  then show ?thesis using assms(1) True by (simp add: precedes_def)
next
  case False
  then have "takeWhile (\<lambda>e. e \<noteq> b) (tr @ evs) = tr @ takeWhile (\<lambda>e. e \<noteq> b) evs"
    by (intro takeWhile_append2) auto
  then show ?thesis using assms(2) False by (auto simp: precedes_def)
qed

lemma inv_trace_extend:
  assumes "inv_trace P s" and "trace s' = trace s @ evs"
    and "\<And>e. happened s' e \<Longrightarrow> happened s e \<or> e \<in> set evs"
    and "\<And>a b. before P a b \<Longrightarrow> b \<in> set evs \<Longrightarrow> happened s a"
  shows "inv_trace P s'"
  unfolding inv_trace_def
proof (intro conjI allI impI)
  fix e assume "happened s' e"
  then have "happened s e \<or> e \<in> set evs" by (rule assms(3))
  then show "e \<in> set (trace s')" using assms(1,2) by (auto simp: inv_trace_def)
next
  fix a b assume ab: "before P a b"
  then have "precedes a b (trace s)" using assms(1) by (simp add: inv_trace_def)
  moreover have "b \<in> set evs \<Longrightarrow> a \<in> set (trace s)"
    using assms(4)[OF ab] assms(1) by (simp add: inv_trace_def)
  ultimately show "precedes a b (trace s')" unfolding assms(2) by (intro precedes_append) auto
qed

lemma init_inv_trace: "inv_trace P (init P)"
proof -
  have "\<not> happened (init P) e" for e
    by (cases e) (simp_all add: init_def registered_def)
  then show ?thesis by (simp add: inv_trace_def precedes_def init_def)
qed

lemma total_zero:
  assumes "\<And>pc. 0 \<le> f pc" "total f ts = 0" "j < length ts"
  shows "f (snd (ts ! j)) = 0"
proof -
  have "f (snd (ts ! j)) \<le> total f ts" using assms(1,3) by (intro total_member_le) simp_all
  moreover have "0 \<le> f (snd (ts ! j))" using assms(1) .
  ultimately show ?thesis using assms(2) by simp
qed

lemma all_exited:
  assumes "inv_ctrl P s" "loop_pc s = L_exit" "total live (tasks s) = 0"
  shows "length (tasks s) = length (prog_args P)"
    and "\<And>i. i < length (prog_args P) \<Longrightarrow> snd (tasks s ! i) = T_exit"
proof -
  have "drop (length (tasks s)) (prog_args P) = []" "length (tasks s) \<le> length (prog_args P)"
    using assms(1,2) by (simp_all add: inv_ctrl_def)
  then show n: "length (tasks s) = length (prog_args P)" by simp
  fix i assume "i < length (prog_args P)"
  then have "live (snd (tasks s ! i)) = 0"
    using total_zero[of live "tasks s" i] assms(3) n by simp
  then show "snd (tasks s ! i) = T_exit" by (cases "snd (tasks s ! i)") simp_all
qed

lemma inv_trace_main:
  assumes I: "Inv P s" and T: "inv_trace P s" and st: "step_main P s = Some s'"
    and alive: "main_pc s \<noteq> M_returned" "main_pc s \<noteq> M_usage"
  shows "inv_trace P s'"
proof -
  from I have c: "inv_ctrl P s" and p: "inv_panic P s" and w: "inv_wg s" and m: "inv_sem s"
    and a: "inv_wait s" and h: "inv_chan s" and t: "inv_sent s" and v: "inv_vals P s"
    and o: "inv_out P s"
    by (simp_all add: Inv_def)
  from st show ?thesis
  proof (cases rule: step_main_cases)
    case usage
    note f = usage
    have tr: "trace s' = trace s @ [EvUsage]" using f by simp
    have h1: "happened s e \<or> e \<in> set [EvUsage]" if "happened s' e" for e
      using that f  by (cases e) (auto simp: registered_def nth_list_update nth_append less_Suc_eq  split: if_splits)
    have h2: "happened s x" if "before P x y" "y \<in> set [EvUsage]" for x y
      using that f  by (auto elim!: before.cases simp: registered_def )
    show ?thesis by (rule inv_trace_extend[OF T tr h1 h2])
  next
    case panic
    note f = panic
    have tr: "trace s' = trace s @ []" using f by simp
    have h1: "happened s e \<or> e \<in> set []" if "happened s' e" for e
      using that f  by (cases e) (auto simp: registered_def nth_list_update nth_append less_Suc_eq  split: if_splits)
    have h2: "happened s x" if "before P x y" "y \<in> set []" for x y
      using that f  by (auto elim!: before.cases simp: registered_def )
    show ?thesis by (rule inv_trace_extend[OF T tr h1 h2])
  next
    case make
    note f = make
    have tr: "trace s' = trace s @ []" using f by simp
    have h1: "happened s e \<or> e \<in> set []" if "happened s' e" for e
      using that f  by (cases e) (auto simp: registered_def nth_list_update nth_append less_Suc_eq  split: if_splits)
    have h2: "happened s x" if "before P x y" "y \<in> set []" for x y
      using that f  by (auto elim!: before.cases simp: registered_def )
    show ?thesis by (rule inv_trace_extend[OF T tr h1 h2])
  next
    case add
    note f = add
    have tr: "trace s' = trace s @ [EvRegisterLoop]" using f by simp
    have h1: "happened s e \<or> e \<in> set [EvRegisterLoop]" if "happened s' e" for e
      using that f  by (cases e) (auto simp: registered_def nth_list_update nth_append less_Suc_eq  split: if_splits)
    have h2: "happened s x" if "before P x y" "y \<in> set [EvRegisterLoop]" for x y
      using that f  by (auto elim!: before.cases simp: registered_def )
    show ?thesis by (rule inv_trace_extend[OF T tr h1 h2])
  next
    case go_loop
    note f = go_loop
    have tr: "trace s' = trace s @ [EvStartLoop]" using f by simp
    have h1: "happened s e \<or> e \<in> set [EvStartLoop]" if "happened s' e" for e
      using that f  by (cases e) (auto simp: registered_def nth_list_update nth_append less_Suc_eq  split: if_splits)
    have h2: "happened s x" if "before P x y" "y \<in> set [EvStartLoop]" for x y
      using that f  by (auto elim!: before.cases simp: registered_def )
    show ?thesis by (rule inv_trace_extend[OF T tr h1 h2])
  next
    case go_waiter
    note f = go_waiter
    have tr: "trace s' = trace s @ [EvStartWaiter]" using f by simp
    have h1: "happened s e \<or> e \<in> set [EvStartWaiter]" if "happened s' e" for e
      using that f  by (cases e) (auto simp: registered_def nth_list_update nth_append less_Suc_eq  split: if_splits)
    have h2: "happened s x" if "before P x y" "y \<in> set [EvStartWaiter]" for x y
      using that f  by (auto elim!: before.cases simp: registered_def )
    show ?thesis by (rule inv_trace_extend[OF T tr h1 h2])
  next
    case (recv result rest)
    note f = recv
    have tr: "trace s' = trace s @ []" using f by simp
    have h1: "happened s e \<or> e \<in> set []" if "happened s' e" for e
      using that f  by (cases e) (auto simp: registered_def nth_list_update nth_append less_Suc_eq  split: if_splits)
    have h2: "happened s x" if "before P x y" "y \<in> set []" for x y
      using that f  by (auto elim!: before.cases simp: registered_def )
    show ?thesis by (rule inv_trace_extend[OF T tr h1 h2])
  next
    case completed
    note f = completed
    have tr: "trace s' = trace s @ [EvCompleted]" using f by simp
    have h1: "happened s e \<or> e \<in> set [EvCompleted]" if "happened s' e" for e
      using that f  by (cases e) (auto simp: registered_def nth_list_update nth_append less_Suc_eq  split: if_splits)
    have h2: "happened s x" if "before P x y" "y \<in> set [EvCompleted]" for x y
      using that f  by (auto elim!: before.cases simp: registered_def )
    show ?thesis by (rule inv_trace_extend[OF T tr h1 h2])
  qed
qed

lemma inv_trace_loop:
  assumes I: "Inv P s" and T: "inv_trace P s" and st: "step_loop s = Some s'"
    and alive: "main_pc s \<noteq> M_returned" "main_pc s \<noteq> M_usage"
  shows "inv_trace P s'"
proof -
  from I have c: "inv_ctrl P s" and p: "inv_panic P s" and w: "inv_wg s" and m: "inv_sem s"
    and a: "inv_wait s" and h: "inv_chan s" and t: "inv_sent s" and v: "inv_vals P s"
    and o: "inv_out P s"
    by (simp_all add: Inv_def)
  from st show ?thesis
  proof (cases rule: step_loop_cases)
    case exit
    note f = exit
    have mp: "main_pc s = M_go_waiter \<or> main_pc s = M_range" using c f(1) alive by (cases "main_pc s") (simp_all add: inv_ctrl_def)
    have lim: "limiter s = None \<longleftrightarrow> prog_limiter P = None" using c by (simp add: inv_ctrl_def)
    have tr: "trace s' = trace s @ [EvRetireLoop]" using f by simp
    have h1: "happened s e \<or> e \<in> set [EvRetireLoop]" if "happened s' e" for e
      using that f mp lim by (cases e) (auto simp: registered_def nth_list_update nth_append less_Suc_eq  split: if_splits)
    have h2: "happened s x" if "before P x y" "y \<in> set [EvRetireLoop]" for x y
      using that f mp lim by (auto elim!: before.cases simp: registered_def )
    show ?thesis by (rule inv_trace_extend[OF T tr h1 h2])
  next
    case (unlimited path rest)
    note f = unlimited
    have mp: "main_pc s = M_go_waiter \<or> main_pc s = M_range" using c f(1) alive by (cases "main_pc s") (simp_all add: inv_ctrl_def)
    have lim: "limiter s = None \<longleftrightarrow> prog_limiter P = None" using c by (simp add: inv_ctrl_def)
    have tr: "trace s' = trace s @ []" using f by simp
    have h1: "happened s e \<or> e \<in> set []" if "happened s' e" for e
      using that f mp lim by (cases e) (auto simp: registered_def nth_list_update nth_append less_Suc_eq  split: if_splits)
    have h2: "happened s x" if "before P x y" "y \<in> set []" for x y
      using that f mp lim by (auto elim!: before.cases simp: registered_def )
    show ?thesis by (rule inv_trace_extend[OF T tr h1 h2])
  next
    case (token path rest l l')
    note f = token
    have mp: "main_pc s = M_go_waiter \<or> main_pc s = M_range" using c f(1) alive by (cases "main_pc s") (simp_all add: inv_ctrl_def)
    have lim: "limiter s = None \<longleftrightarrow> prog_limiter P = None" using c by (simp add: inv_ctrl_def)
    have tr: "trace s' = trace s @ [EvToken (length (tasks s))]" using f by simp
    have h1: "happened s e \<or> e \<in> set [EvToken (length (tasks s))]" if "happened s' e" for e
      using that f mp lim by (cases e) (auto simp: registered_def nth_list_update nth_append less_Suc_eq  split: if_splits)
    have h2: "happened s x" if "before P x y" "y \<in> set [EvToken (length (tasks s))]" for x y
      using that f mp lim by (auto elim!: before.cases simp: registered_def )
    show ?thesis by (rule inv_trace_extend[OF T tr h1 h2])
  next
    case (slot path rest)
    note f = slot
    have mp: "main_pc s = M_go_waiter \<or> main_pc s = M_range" using c f(1) alive by (cases "main_pc s") (simp_all add: inv_ctrl_def)
    have lim: "limiter s = None \<longleftrightarrow> prog_limiter P = None" using c by (simp add: inv_ctrl_def)
    have tr: "trace s' = trace s @ [EvSlot (length (tasks s))]" using f by simp
    have h1: "happened s e \<or> e \<in> set [EvSlot (length (tasks s))]" if "happened s' e" for e
      using that f mp lim by (cases e) (auto simp: registered_def nth_list_update nth_append less_Suc_eq  split: if_splits)
    have h2: "happened s x" if "before P x y" "y \<in> set [EvSlot (length (tasks s))]" for x y
      using that f mp lim by (auto elim!: before.cases simp: registered_def )
    show ?thesis by (rule inv_trace_extend[OF T tr h1 h2])
  next
    case (handover path rest j)
    note f = handover
    have mp: "main_pc s = M_go_waiter \<or> main_pc s = M_range" using c f(1) alive by (cases "main_pc s") (simp_all add: inv_ctrl_def)
    have lim: "limiter s = None \<longleftrightarrow> prog_limiter P = None" using c by (simp add: inv_ctrl_def)
    have j: "j < length (tasks s)" "snd (tasks s ! j) = T_release" using find_release_Some[OF f(3)] by simp_all
    have tr: "trace s' = trace s @ [EvSlot (length (tasks s)), EvRelease j]" using f by simp
    have h1: "happened s e \<or> e \<in> set [EvSlot (length (tasks s)), EvRelease j]" if "happened s' e" for e
      using that f mp lim j by (cases e) (auto simp: registered_def nth_list_update nth_append less_Suc_eq  split: if_splits)
    have h2: "happened s x" if "before P x y" "y \<in> set [EvSlot (length (tasks s)), EvRelease j]" for x y
      using that f mp lim j by (auto elim!: before.cases simp: registered_def )
    show ?thesis by (rule inv_trace_extend[OF T tr h1 h2])
  next
    case (add path rest)
    note f = add
    have mp: "main_pc s = M_go_waiter \<or> main_pc s = M_range" using c f(1) alive by (cases "main_pc s") (simp_all add: inv_ctrl_def)
    have lim: "limiter s = None \<longleftrightarrow> prog_limiter P = None" using c by (simp add: inv_ctrl_def)
    have tr: "trace s' = trace s @ [EvRegister (length (tasks s))]" using f by simp
    have h1: "happened s e \<or> e \<in> set [EvRegister (length (tasks s))]" if "happened s' e" for e
      using that f mp lim by (cases e) (auto simp: registered_def nth_list_update nth_append less_Suc_eq  split: if_splits)
    have h2: "happened s x" if "before P x y" "y \<in> set [EvRegister (length (tasks s))]" for x y
      using that f mp lim by (auto elim!: before.cases simp: registered_def )
    show ?thesis by (rule inv_trace_extend[OF T tr h1 h2])
  next
    case (go path rest)
    note f = go
    have mp: "main_pc s = M_go_waiter \<or> main_pc s = M_range" using c f(1) alive by (cases "main_pc s") (simp_all add: inv_ctrl_def)
    have lim: "limiter s = None \<longleftrightarrow> prog_limiter P = None" using c by (simp add: inv_ctrl_def)
    have tr: "trace s' = trace s @ [EvSpawn (length (tasks s))]" using f by simp
    have h1: "happened s e \<or> e \<in> set [EvSpawn (length (tasks s))]" if "happened s' e" for e
      using that f mp lim by (cases e) (auto simp: registered_def nth_list_update nth_append less_Suc_eq  split: if_splits)
    have h2: "happened s x" if "before P x y" "y \<in> set [EvSpawn (length (tasks s))]" for x y
      using that f mp lim by (auto elim!: before.cases simp: registered_def )
    show ?thesis by (rule inv_trace_extend[OF T tr h1 h2])
  qed
qed

lemma inv_trace_task:
  assumes I: "Inv P s" and T: "inv_trace P s" and st: "step_task P j s = Some s'"
    and alive: "main_pc s \<noteq> M_returned" "main_pc s \<noteq> M_usage"
  shows "inv_trace P s'"
proof -
  from I have c: "inv_ctrl P s" and p: "inv_panic P s" and w: "inv_wg s" and m: "inv_sem s"
    and a: "inv_wait s" and h: "inv_chan s" and t: "inv_sent s" and v: "inv_vals P s"
    and o: "inv_out P s"
    by (simp_all add: Inv_def)
  from st show ?thesis
  proof (cases rule: step_task_cases)
    case (process path)
    note f = process
    have tr: "trace s' = trace s @ [EvProcess j]" using f by simp
    have h1: "happened s e \<or> e \<in> set [EvProcess j]" if "happened s' e" for e
      using that f  by (cases e) (auto simp: registered_def nth_list_update nth_append less_Suc_eq  split: if_splits)
    have h2: "happened s x" if "before P x y" "y \<in> set [EvProcess j]" for x y
      using that f  by (auto elim!: before.cases simp: registered_def )
    show ?thesis by (rule inv_trace_extend[OF T tr h1 h2])
  next
    case (send_closed path result)
    note f = send_closed
    have tr: "trace s' = trace s @ []" using f by simp
    have h1: "happened s e \<or> e \<in> set []" if "happened s' e" for e
      using that f  by (cases e) (auto simp: registered_def nth_list_update nth_append less_Suc_eq  split: if_splits)
    have h2: "happened s x" if "before P x y" "y \<in> set []" for x y
      using that f  by (auto elim!: before.cases simp: registered_def )
    show ?thesis by (rule inv_trace_extend[OF T tr h1 h2])
  next
    case (deliver path result)
    note f = deliver
    have tr: "trace s' = trace s @ [EvDeliver j]" using f by simp
    have h1: "happened s e \<or> e \<in> set [EvDeliver j]" if "happened s' e" for e
      using that f  by (cases e) (auto simp: registered_def nth_list_update nth_append less_Suc_eq  split: if_splits)
    have h2: "happened s x" if "before P x y" "y \<in> set [EvDeliver j]" for x y
      using that f  by (auto elim!: before.cases simp: registered_def )
    show ?thesis by (rule inv_trace_extend[OF T tr h1 h2])
  next
    case (release path)
    note f = release
    have tr: "trace s' = trace s @ [EvRelease j]" using f by simp
    have h1: "happened s e \<or> e \<in> set [EvRelease j]" if "happened s' e" for e
      using that f  by (cases e) (auto simp: registered_def nth_list_update nth_append less_Suc_eq  split: if_splits)
    have h2: "happened s x" if "before P x y" "y \<in> set [EvRelease j]" for x y
      using that f  by (auto elim!: before.cases simp: registered_def )
    show ?thesis by (rule inv_trace_extend[OF T tr h1 h2])
  next
    case (retire path)
    note f = retire
    have tr: "trace s' = trace s @ [EvRetire j]" using f by simp
    have h1: "happened s e \<or> e \<in> set [EvRetire j]" if "happened s' e" for e
      using that f  by (cases e) (auto simp: registered_def nth_list_update nth_append less_Suc_eq  split: if_splits)
    have h2: "happened s x" if "before P x y" "y \<in> set [EvRetire j]" for x y
      using that f  by (auto elim!: before.cases simp: registered_def )
    show ?thesis by (rule inv_trace_extend[OF T tr h1 h2])
  qed
qed

lemma inv_trace_waiter:
  assumes I: "Inv P s" and T: "inv_trace P s" and st: "step_waiter s = Some s'"
    and alive: "main_pc s \<noteq> M_returned" "main_pc s \<noteq> M_usage"
  shows "inv_trace P s'"
proof -
  from I have c: "inv_ctrl P s" and p: "inv_panic P s" and w: "inv_wg s" and m: "inv_sem s"
    and a: "inv_wait s" and h: "inv_chan s" and t: "inv_sent s" and v: "inv_vals P s"
    and o: "inv_out P s"
    by (simp_all add: Inv_def)
  from st show ?thesis
  proof (cases rule: step_waiter_cases)
    case returns
    note f = returns
    have mp: "main_pc s = M_range" using c f(1) alive by (cases "main_pc s") (simp_all add: inv_ctrl_def)
    have r: "registered s" using mp by (auto simp: registered_def)
    have la: "0 \<le> loop_added (loop_pc s)" by simp
    have tl: "0 \<le> total live (tasks s)" by (rule total_nonneg) simp
    have e: "(if registered s \<and> loop_pc s \<noteq> L_exit then 1 else 0) + loop_added (loop_pc s) + total live (tasks s) = 0" using w f(2) by (simp add: inv_wg_def)
    have le: "loop_pc s = L_exit" using e la tl r by (cases "loop_pc s = L_exit") simp_all
    have t0: "total live (tasks s) = 0" using e la tl le by simp
    note ae = all_exited[OF c le t0]
    have tr: "trace s' = trace s @ [EvWaitReturns]" using f by simp
    have h1: "happened s e \<or> e \<in> set [EvWaitReturns]" if "happened s' e" for e
      using that f ae le by (cases e) (auto simp: registered_def nth_list_update nth_append less_Suc_eq  split: if_splits)
    have h2: "happened s x" if "before P x y" "y \<in> set [EvWaitReturns]" for x y
      using that f ae le by (auto elim!: before.cases simp: registered_def )
    show ?thesis by (rule inv_trace_extend[OF T tr h1 h2])
  next
    case close_closed
    note f = close_closed
    have tr: "trace s' = trace s @ []" using f by simp
    have h1: "happened s e \<or> e \<in> set []" if "happened s' e" for e
      using that f  by (cases e) (auto simp: registered_def nth_list_update nth_append less_Suc_eq  split: if_splits)
    have h2: "happened s x" if "before P x y" "y \<in> set []" for x y
      using that f  by (auto elim!: before.cases simp: registered_def )
    show ?thesis by (rule inv_trace_extend[OF T tr h1 h2])
  next
    case close
    note f = close
    have le: "loop_pc s = L_exit" and t0: "total live (tasks s) = 0" using a f(1) by (simp_all add: inv_wait_def)
    note ae = all_exited[OF c le t0]
    have tr: "trace s' = trace s @ [EvClose]" using f by simp
    have h1: "happened s e \<or> e \<in> set [EvClose]" if "happened s' e" for e
      using that f ae le by (cases e) (auto simp: registered_def nth_list_update nth_append less_Suc_eq  split: if_splits)
    have h2: "happened s x" if "before P x y" "y \<in> set [EvClose]" for x y
      using that f ae le by (auto elim!: before.cases simp: registered_def )
    show ?thesis by (rule inv_trace_extend[OF T tr h1 h2])
  qed
qed

lemma inv_trace_step:
  assumes "Inv P s" "inv_trace P s" "step P a s = Some s'"
  shows "inv_trace P s'"
proof -
  from assms(3) have alive: "main_pc s \<noteq> M_returned" "main_pc s \<noteq> M_usage"
    and np: "panicked s = None"
    by (auto simp: step_def split: if_splits)
  show ?thesis
  proof (cases a)
    case Main
    then show ?thesis using assms alive np by (auto simp: step_def intro: inv_trace_main)
  next
    case Loop
    then show ?thesis using assms alive np by (auto simp: step_def intro: inv_trace_loop)
  next
    case Waiter
    then show ?thesis using assms alive np by (auto simp: step_def intro: inv_trace_waiter)
  next
    case (Task j)
    then show ?thesis using assms alive np by (auto simp: step_def intro: inv_trace_task)
  next
    case Ticker
    then obtain l where "limiter s = Some l" "s' = s\<lparr>limiter := Some (refillTokens l)\<rparr>"
      using assms(3) by (auto simp: step_def elim: step_ticker_cases split: if_splits)
    then have tr: "trace s' = trace s @ []" and h: "\<And>e. happened s' e = happened s e"
    proof -
      assume s': "limiter s = Some l" "s' = s\<lparr>limiter := Some (refillTokens l)\<rparr>"
      then show "trace s' = trace s @ []" by simp
      fix e show "happened s' e = happened s e" using s' by (cases e) (simp_all add: registered_def)
    qed
    show ?thesis by (rule inv_trace_extend[OF assms(2) tr]) (simp_all add: h)
  qed
qed

lemma Inv_trace_run: "Inv P (run P sched (init P)) \<and> inv_trace P (run P sched (init P))"
  by (rule run_induct[where Q = "\<lambda>s. Inv P s \<and> inv_trace P s"])
     (auto intro: init_Inv Inv_step init_inv_trace inv_trace_step)

lemma precedes_run:
  "before P a b \<Longrightarrow> precedes a b (trace (run P sched (init P)))"
  using Inv_trace_run[of P sched] by (simp add: inv_trace_def)

section \<open>The driver: bounded concurrency, admission order, completion\<close>

lemma executing_le_holds: "int (executing s) \<le> total holds_slot (tasks s)"
proof -
  have "int (length (filter (\<lambda>t. in_processImage (snd t)) ts)) \<le> total holds_slot ts"
    for ts :: "(string \<times> 'a task_pc) list"
  proof (induction ts)
    case Nil
    then show ?case by simp
  next
    case (Cons t ts)
    obtain path pc where t: "t = (path, pc)" by (cases t)
    have "0 \<le> holds_slot pc" by simp
    then show ?case using Cons t by (cases pc) (auto simp: total_def)
  qed
  then show ?thesis by (simp add: executing_def)
qed

lemma sem_bound:
  assumes "Inv P s"
  shows "ch_len (sem s) \<le> nat (prog_maxConcurrent P)"
proof (cases "main_pc s = M_start \<or> main_pc s = M_usage")
  case True
  have li: "loop_pc s = L_idle" using assms True by (auto simp: Inv_def loop_idle_iff)
  then have "tasks s = []" using assms by (simp add: Inv_def inv_ctrl_def)
  then have "int (ch_len (sem s)) = 0" using assms li by (simp add: Inv_def inv_sem_def)
  then show ?thesis by simp
next
  case False
  then have "ch_cap (sem s) = nat (prog_maxConcurrent P)" using assms by (simp add: Inv_def inv_ctrl_def)
  moreover have "ch_len (sem s) \<le> ch_cap (sem s)" using assms by (simp add: Inv_def inv_sem_def)
  ultimately show ?thesis by simp
qed

text \<open>
  C3: in every state of every run, for every number of paths and every
  \<open>maxConcurrent\<close>, the number of tasks inside \<open>processImage\<close> (started and not yet
  through the deferred send) is at most the number of slots taken in the semaphore, which
  is at most \<open>maxConcurrent\<close>; the slot of a task is taken before the task is spawned and
  given back only after its \<open>processImage\<close> has delivered its result and returned.
\<close>

theorem concurrency_bounded:
  "executing (exec P sched) \<le> ch_len (sem (exec P sched))
   \<and> ch_len (sem (exec P sched)) \<le> nat (prog_maxConcurrent P)
   \<and> precedes (EvSlot i) (EvSpawn i) (trace (exec P sched))
   \<and> precedes (EvSpawn i) (EvProcess i) (trace (exec P sched))
   \<and> precedes (EvDeliver i) (EvRelease i) (trace (exec P sched))"
proof -
  let ?s = "exec P sched"
  have I: "Inv P ?s" by (rule Inv_run)
  have "int (executing ?s) \<le> total holds_slot (tasks ?s)" by (rule executing_le_holds)
  moreover have "0 \<le> loop_holds (loop_pc ?s)" by simp
  moreover have "int (ch_len (sem ?s)) = loop_holds (loop_pc ?s) + total holds_slot (tasks ?s)"
    using I by (simp add: Inv_def inv_sem_def)
  ultimately have "executing ?s \<le> ch_len (sem ?s)" by linarith
  moreover have "precedes (EvSlot i) (EvSpawn i) (trace ?s)"
    by (rule precedes_run[OF before.slot_spawn])
  moreover have "precedes (EvSpawn i) (EvProcess i) (trace ?s)"
    by (rule precedes_run[OF before.spawn_process])
  moreover have "precedes (EvDeliver i) (EvRelease i) (trace ?s)"
    by (rule precedes_run[OF before.deliver_release])
  ultimately show ?thesis using sem_bound[OF I] by simp
qed

section \<open>The example run\<close>

lemmas eval_defs = processImage_result_def getImage_def example_env_def example_vars_def
  convertImages_def imageToPNG_def encodeGIF_def requestArguments_def storeResult_def
  unmarshal_into_def saveBytesToDisk_def saveResultToDisk_def Response_zero_def Let_def
  strings_Replace1_def emoteNamePrefixPlaceholder_def fileExtension_def

lemmas run_defs = init_def step_def step_main_def step_loop_def step_task_def step_waiter_def
  step_ticker_def wg_Add_def make_chan_def ch_send_def ch_recv_def Wait_def refillTokens_def

lemma example_fields:
  "prog_limiter example_program
     = Some \<lparr>rate = 1, tokens = \<lparr>ch_cap = 1, ch_len = 1\<rparr>, ticker = 60000000000\<rparr>"
  "prog_maxConcurrent example_program = 1"
  "prog_args example_program = [''a.png'', ''missing.png'']"
  "prog_marshal example_program = marshal_Response"
  by (simp_all add: example_program_def program_main_go_def)

lemma example_process:
  "prog_process example_program ''a.png'' =
     \<lparr>Response = Response_zero\<lparr>Response.TwitchEmoteName := ''emmalyStonks'',
                                 Filename := ''emmalyStonks''\<rparr>,
      SourceFilepath = ''a.png'',
      DestinationFiles = [''emmalyStonks.original.png'', ''emmalyStonks.28x28.png''],
      Error = None, ErrorString = ''''\<rparr>"
  "prog_process example_program ''missing.png'' =
     \<lparr>Response = Response_zero, SourceFilepath = ''missing.png'', DestinationFiles = [],
      Error = Some (Err ''open missing.png: no such file or directory''), ErrorString = ''''\<rparr>"
  by (simp_all add: example_program_def program_main_go_def eval_defs)

lemma example_trace:
  "trace (exec example_program example_schedule) =
     [EvRegisterLoop, EvStartLoop, EvStartWaiter, EvToken 0, EvSlot 0, EvRegister 0, EvSpawn 0,
      EvToken 1, EvProcess 0, EvDeliver 0, EvRelease 0, EvSlot 1, EvRegister 1, EvSpawn 1,
      EvProcess 1, EvDeliver 1, EvRelease 1, EvRetire 1, EvRetire 0, EvRetireLoop,
      EvWaitReturns, EvClose, EvCompleted]"
  by (simp add: example_schedule_def run_defs example_fields example_process)

lemma example_final:
  "main_pc (exec example_program example_schedule) = M_returned"
  "closed (exec example_program example_schedule)"
  "map fst (delivered (exec example_program example_schedule)) = [0, 1]"
  "length (received (exec example_program example_schedule)) = 2"
  "wg (exec example_program example_schedule) = 0"
  "panicked (exec example_program example_schedule) = None"
  by (simp_all add: example_schedule_def run_defs example_fields example_process)

lemma example_midway:
  "executing (exec example_program (take 12 example_schedule)) = 1"
  "ch_len (sem (exec example_program (take 12 example_schedule))) = 1"
  by (simp_all add: example_schedule_def run_defs example_fields example_process executing_def)

theorem concurrency_bounded_witness:
  "executing (exec example_program (take 12 example_schedule)) = 1
   \<and> ch_len (sem (exec example_program (take 12 example_schedule))) = 1
   \<and> nat (prog_maxConcurrent example_program) = 1
   \<and> EvSpawn 0 \<in> set (trace (exec example_program example_schedule))
   \<and> precedes (EvSlot 0) (EvSpawn 0) (trace (exec example_program example_schedule))"
proof -
  have "precedes (EvSlot 0) (EvSpawn 0) (trace (exec example_program example_schedule))"
    using concurrency_bounded[of example_program example_schedule 0] by blast
  moreover have "EvSpawn 0 \<in> set (trace (exec example_program example_schedule))"
    by (simp add: example_trace)
  ultimately show ?thesis by (simp add: example_midway example_fields)
qed

text \<open>
  C5: in every run and for every item, the events of the item come in this order: the
  limiter token (in the program that has a limiter), the semaphore slot, the
  registration with the wait group, the spawn; then, in the task, the processing, the
  delivery of the result, the release of the slot and the retirement from the wait
  group. An event of the list never occurs before the one in front of it has occurred.
\<close>

theorem admission_order:
  "(prog_limiter P \<noteq> None \<longrightarrow> precedes (EvToken i) (EvSlot i) (trace (exec P sched)))
   \<and> precedes (EvSlot i) (EvRegister i) (trace (exec P sched))
   \<and> precedes (EvRegister i) (EvSpawn i) (trace (exec P sched))
   \<and> precedes (EvSpawn i) (EvProcess i) (trace (exec P sched))
   \<and> precedes (EvProcess i) (EvDeliver i) (trace (exec P sched))
   \<and> precedes (EvDeliver i) (EvRelease i) (trace (exec P sched))
   \<and> precedes (EvRelease i) (EvRetire i) (trace (exec P sched))"
proof (intro conjI impI)
  assume "prog_limiter P \<noteq> None"
  then show "precedes (EvToken i) (EvSlot i) (trace (exec P sched))"
    by (intro precedes_run before.token_slot)
qed (intro precedes_run before.intros)+

theorem admission_order_witness:
  "prog_limiter example_program \<noteq> None
   \<and> EvRetire 1 \<in> set (trace (exec example_program example_schedule))
   \<and> precedes (EvToken 1) (EvSlot 1) (trace (exec example_program example_schedule))
   \<and> precedes (EvSlot 1) (EvRegister 1) (trace (exec example_program example_schedule))
   \<and> precedes (EvRegister 1) (EvSpawn 1) (trace (exec example_program example_schedule))
   \<and> precedes (EvSpawn 1) (EvProcess 1) (trace (exec example_program example_schedule))
   \<and> precedes (EvProcess 1) (EvDeliver 1) (trace (exec example_program example_schedule))
   \<and> precedes (EvDeliver 1) (EvRelease 1) (trace (exec example_program example_schedule))
   \<and> precedes (EvRelease 1) (EvRetire 1) (trace (exec example_program example_schedule))"
proof -
  have l: "prog_limiter example_program \<noteq> None" by (simp add: example_fields)
  have "EvRetire 1 \<in> set (trace (exec example_program example_schedule))"
    by (simp add: example_trace)
  then show ?thesis using l admission_order[of example_program 1 example_schedule] by blast
qed

section \<open>Completion\<close>

lemma closed_all_exited:
  assumes "Inv P s" "closed s"
  shows "length (tasks s) = length (prog_args P)"
    and "\<And>i. i < length (prog_args P) \<Longrightarrow> snd (tasks s ! i) = T_exit"
    and "wg s = 0"
proof -
  from assms have c: "inv_ctrl P s" and a: "inv_wait s" and w: "inv_wg s"
    by (simp_all add: Inv_def)
  have we: "wait_pc s = W_exit" using a assms(2) by (simp add: inv_wait_def)
  then have le: "loop_pc s = L_exit" and t0: "total live (tasks s) = 0"
    using a by (simp_all add: inv_wait_def)
  show "length (tasks s) = length (prog_args P)" by (rule all_exited(1)[OF c le t0])
  show "\<And>i. i < length (prog_args P) \<Longrightarrow> snd (tasks s ! i) = T_exit"
    by (rule all_exited(2)[OF c le t0])
  show "wg s = 0" using w le t0 by (simp add: inv_wg_def)
qed

lemma delivered_sound:
  assumes "Inv P s"
  shows "distinct (map fst (delivered s))"
    and "set (map fst (delivered s)) \<subseteq> {..<length (prog_args P)}"
    and "\<And>i r. (i, r) \<in> set (delivered s) \<Longrightarrow> r = prog_process P (prog_args P ! i)"
    and "map snd (delivered s) = received s @ results s"
proof -
  from assms have c: "inv_ctrl P s" and t: "inv_sent s" and v: "inv_vals P s" and h: "inv_chan s"
    by (simp_all add: Inv_def)
  show "distinct (map fst (delivered s))" using t by (simp add: inv_sent_def)
  have "length (tasks s) \<le> length (prog_args P)" using c by (simp add: inv_ctrl_def)
  then show "set (map fst (delivered s)) \<subseteq> {..<length (prog_args P)}"
    using t by (auto simp: inv_sent_def)
  show "\<And>i r. (i, r) \<in> set (delivered s) \<Longrightarrow> r = prog_process P (prog_args P ! i)"
    using v by (auto simp: inv_vals_def)
  show "map snd (delivered s) = received s @ results s" using h by (simp add: inv_chan_def)
qed

lemma closed_all_delivered:
  assumes "Inv P s" "closed s"
  shows "mset (map fst (delivered s)) = mset [0..<length (prog_args P)]"
proof -
  from assms have t: "inv_sent s" by (simp add: Inv_def)
  have "set (map fst (delivered s)) = {j. j < length (tasks s) \<and> has_sent (snd (tasks s ! j))}"
    using t by (simp add: inv_sent_def)
  also have "\<dots> = {..<length (prog_args P)}"
    using closed_all_exited(1,2)[OF assms] by auto
  finally have "set (map fst (delivered s)) = set [0..<length (prog_args P)]" by auto
  moreover have "distinct (map fst (delivered s))" using t by (simp add: inv_sent_def)
  ultimately show ?thesis by (metis distinct_upt set_eq_iff_mset_eq_distinct)
qed

lemma wait_returned_zero:
  assumes "Inv P s" "wait_pc s = W_close \<or> wait_pc s = W_exit"
  shows "wg s = 0"
proof -
  from assms have a: "inv_wait s" and w: "inv_wg s" by (simp_all add: Inv_def)
  have "loop_pc s = L_exit" "total live (tasks s) = 0" using a assms(2) by (auto simp: inv_wait_def)
  then show ?thesis using w by (simp add: inv_wg_def)
qed

text \<open>
  C1: in every run, when the results channel is closed every item has delivered its
  result, exactly once, and the wait group counter is zero; when the range loop of
  \<open>main\<close> ends, \<open>main\<close> has received all of them. The delivery of each item precedes the
  close. The loop is registered with the wait group before the waiter and the loop are
  started and before any task is spawned; each task is registered before it is spawned
  and retires only after its delivery; \<open>Wait\<close> returns only at counter zero, after the
  loop and every task have retired, and the close comes after that. The counter is never
  negative.
\<close>

theorem completion_after_all_results:
  "(closed (exec P sched) \<longrightarrow>
      mset (map fst (delivered (exec P sched))) = mset [0..<length (prog_args P)]
      \<and> length (delivered (exec P sched)) = length (prog_args P)
      \<and> wg (exec P sched) = 0)
   \<and> (main_pc (exec P sched) = M_returned \<longrightarrow>
        length (received (exec P sched)) = length (prog_args P))
   \<and> (i < length (prog_args P) \<longrightarrow> precedes (EvDeliver i) EvClose (trace (exec P sched)))
   \<and> precedes EvRegisterLoop EvStartLoop (trace (exec P sched))
   \<and> precedes EvRegisterLoop EvStartWaiter (trace (exec P sched))
   \<and> precedes EvRegisterLoop (EvSpawn i) (trace (exec P sched))
   \<and> precedes (EvRegister i) (EvSpawn i) (trace (exec P sched))
   \<and> precedes (EvDeliver i) (EvRetire i) (trace (exec P sched))
   \<and> (i < length (prog_args P) \<longrightarrow> precedes (EvRetire i) EvWaitReturns (trace (exec P sched)))
   \<and> precedes EvRetireLoop EvWaitReturns (trace (exec P sched))
   \<and> precedes EvWaitReturns EvClose (trace (exec P sched))
   \<and> precedes EvClose EvCompleted (trace (exec P sched))
   \<and> (wait_pc (exec P sched) = W_close \<or> wait_pc (exec P sched) = W_exit
        \<longrightarrow> wg (exec P sched) = 0)
   \<and> 0 \<le> wg (exec P sched)"
proof -
  let ?s = "exec P sched"
  have I: "Inv P ?s" by (rule Inv_run)
  have 1: "mset (map fst (delivered ?s)) = mset [0..<length (prog_args P)]
      \<and> length (delivered ?s) = length (prog_args P) \<and> wg ?s = 0" if cl: "closed ?s"
  proof -
    have m: "mset (map fst (delivered ?s)) = mset [0..<length (prog_args P)]"
      by (rule closed_all_delivered[OF I cl])
    then have "size (mset (map fst (delivered ?s))) = size (mset [0..<length (prog_args P)])"
      by simp
    then have "length (delivered ?s) = length (prog_args P)" by simp
    then show ?thesis using m closed_all_exited(3)[OF I cl] by simp
  qed
  have 2: "length (received ?s) = length (prog_args P)" if r: "main_pc ?s = M_returned"
  proof -
    have "inv_wait ?s" using I by (simp add: Inv_def)
    then have "closed ?s" "results ?s = []" using r unfolding inv_wait_def by blast+
    then have "length (map snd (delivered ?s)) = length (received ?s)"
      "length (delivered ?s) = length (prog_args P)"
      using delivered_sound(4)[OF I] 1 by simp_all
    then show ?thesis by simp
  qed
  have 3: "0 \<le> wg ?s" using I by (simp add: Inv_def wg_nonneg)
  have 4: "wg ?s = 0" if "wait_pc ?s = W_close \<or> wait_pc ?s = W_exit"
    using wait_returned_zero[OF I that] .
  show ?thesis
    using 1 2 3 4
    by (intro conjI impI) (simp_all add: precedes_run before.intros)
qed

theorem completion_after_all_results_witness:
  "closed (exec example_program example_schedule)
   \<and> main_pc (exec example_program example_schedule) = M_returned
   \<and> length (prog_args example_program) = 2
   \<and> mset (map fst (delivered (exec example_program example_schedule))) = mset [0..<2]
   \<and> length (received (exec example_program example_schedule)) = 2
   \<and> precedes (EvDeliver 1) EvClose (trace (exec example_program example_schedule))
   \<and> EvClose \<in> set (trace (exec example_program example_schedule))"
proof -
  have n: "length (prog_args example_program) = 2" by (simp add: example_fields)
  have "EvClose \<in> set (trace (exec example_program example_schedule))"
    by (simp add: example_trace)
  then show ?thesis
    using completion_after_all_results[of example_program example_schedule 1] example_final(1,2) n
    by simp
qed

end
